theory Spec2Isabelle
  imports Main "HOL-Library.Word" "HOL-Library.Signed_Division"
begin

unbundle bit_operations_syntax

section \<open>Machine integers\<close>

text \<open>
  The class uses \<open>uint8_t\<close>, \<open>uint32_t\<close> and \<open>int32_t\<close>. All three are words here;
  a signed field is read through \<open>sint\<close>. Signed overflow has no defined result in C++;
  the model takes the two's-complement wrap-around of the targets the library is built
  for, and every theorem that gives a result as a mathematical integer states the range
  in which no wrap-around happens. A division has no result at all when the divisor is 0
  and when the least value is divided by -1 (the quotient is no value of \<open>int32_t\<close>, and
  a target that traps on the one traps on the other): both are the value \<open>None\<close> of
  \<open>div_i32\<close>.
\<close>

type_synonym u8 = "8 word"
type_synonym u32 = "32 word"
type_synonym i32 = "32 word"

text \<open>The C++ operator \<open>/\<close> on \<open>int32_t\<close>: the quotient truncated towards zero.\<close>

definition sdiv_i32 :: "i32 \<Rightarrow> i32 \<Rightarrow> i32" where
  "sdiv_i32 a b = word_of_int (sint a sdiv sint b)"

definition div_i32 :: "i32 \<Rightarrow> i32 \<Rightarrow> i32 option" where
  "div_i32 a b =
     (if b = 0 \<or> (sint a = - (2 ^ 31) \<and> sint b = - 1) then None else Some (sdiv_i32 a b))"

text \<open>The values of \<open>int32_t\<close>.\<close>

definition fits_i32 :: "int \<Rightarrow> bool" where
  "fits_i32 k = (- (2 ^ 31) \<le> k \<and> k < 2 ^ 31)"

text \<open>
  \<open>reinterpret_cast<uint8_t*>(&x)[j]\<close> on a little-endian target (AVR, ARM): byte \<open>j\<close>
  holds bits \<open>8 * j\<close> to \<open>8 * j + 7\<close>.
\<close>

definition get_byte :: "i32 \<Rightarrow> nat \<Rightarrow> u8" where
  "get_byte x j = ucast (drop_bit (8 * j) x)"

definition set_byte :: "i32 \<Rightarrow> nat \<Rightarrow> u8 \<Rightarrow> i32" where
  "set_byte x j b = (x AND NOT (push_bit (8 * j) 255)) OR push_bit (8 * j) (ucast b)"

section \<open>The environment: pins and the millisecond clock\<close>

text \<open>
  \<open>digitalRead\<close>, \<open>digitalWrite\<close>, \<open>pinMode\<close> and \<open>millis\<close> are the Arduino core's. The
  levels the pins show and the values of the clock are inputs of the program:
  \<open>levels w n p\<close> is what the \<open>n\<close>-th call of \<open>digitalRead\<close> returns when it reads pin
  \<open>p\<close>, \<open>ticks w n\<close> what the \<open>n\<close>-th call of \<open>millis\<close> returns. Writes and mode
  changes are logged, most recent first.
\<close>

datatype pin_mode = INPUT_PULLUP | OUTPUT

record world =
  levels :: "nat \<Rightarrow> u8 \<Rightarrow> bool"
  ticks :: "nat \<Rightarrow> u32"
  nreads :: nat
  nticks :: nat
  writes :: "(u8 \<times> bool) list"
  modes :: "(u8 \<times> pin_mode) list"

definition digitalRead :: "world \<Rightarrow> u8 \<Rightarrow> bool \<times> world" where
  "digitalRead w p = (levels w (nreads w) p, w\<lparr>nreads := Suc (nreads w)\<rparr>)"

definition digitalWrite :: "world \<Rightarrow> u8 \<Rightarrow> bool \<Rightarrow> world" where
  "digitalWrite w p v = w\<lparr>writes := (p, v) # writes w\<rparr>"

definition pinMode :: "world \<Rightarrow> u8 \<Rightarrow> pin_mode \<Rightarrow> world" where
  "pinMode w p m = w\<lparr>modes := (p, m) # modes w\<rparr>"

definition millis :: "world \<Rightarrow> u32 \<times> world" where
  "millis w = (ticks w (nticks w), w\<lparr>nticks := Suc (nticks w)\<rparr>)"

section \<open>The class\<close>

datatype gain = gain32 | gain64 | gain128

datatype status = init | valid | poweredDown | timedOut

text \<open>The private members, each without its leading underscore.\<close>

record SimpleHX711 =
  pinClk :: u8
  pinData :: u8
  gain :: gain
  tare :: i32
  alpha :: u8
  timestamp :: u32
  raw :: i32
  smoothedRaw :: i32
  adjuster :: i32
  conversionStartTime :: u32
  status :: status
  readCount :: u8
  readsUntilValid :: u8

text \<open>The constructor.\<close>

definition SimpleHX711_new ::
  "u8 \<Rightarrow> u8 \<Rightarrow> u8 \<Rightarrow> gain \<Rightarrow> world \<Rightarrow> SimpleHX711 \<times> world" where
  "SimpleHX711_new pClk pData rUV g w0 =
     (let w1 = pinMode w0 pData INPUT_PULLUP;
          w2 = pinMode w1 pClk OUTPUT;
          (now, w3) = millis w2
      in (\<lparr>pinClk = pClk, pinData = pData, gain = g, tare = 0, alpha = 200,
           timestamp = 0, raw = 0, smoothedRaw = 0, adjuster = 256,
           conversionStartTime = now, status = init, readCount = 0,
           readsUntilValid = rUV\<rparr>, w3))"

subsection \<open>read\<close>

text \<open>
  The body of the inner loop (lines 83 to 87): a clock pulse, during which the data pin
  is read and shifted into byte \<open>j\<close> of \<open>_raw\<close>. The sum is truncated to eight bits by
  the assignment.
\<close>

definition shift_in :: "u8 \<Rightarrow> u8 \<Rightarrow> nat \<Rightarrow> i32 \<times> world \<Rightarrow> i32 \<times> world" where
  "shift_in pClk pData j st =
     (let (r, w0) = st;
          w1 = digitalWrite w0 pClk True;
          (d, w2) = digitalRead w1 pData;
          r' = set_byte r j (push_bit 1 (get_byte r j) + of_bool d);
          w3 = digitalWrite w2 pClk False
      in (r', w3))"

text \<open>\<open>for (i = 0; i < 8; ++i)\<close>, by the number of iterations left.\<close>

fun bits_loop :: "nat \<Rightarrow> u8 \<Rightarrow> u8 \<Rightarrow> nat \<Rightarrow> i32 \<times> world \<Rightarrow> i32 \<times> world" where
  "bits_loop 0 pClk pData j st = st"
| "bits_loop (Suc n) pClk pData j st = bits_loop n pClk pData j (shift_in pClk pData j st)"

text \<open>\<open>for (j = 3; j > 0; --j)\<close>, by the value of \<open>j\<close>.\<close>

fun bytes_loop :: "nat \<Rightarrow> u8 \<Rightarrow> u8 \<Rightarrow> i32 \<times> world \<Rightarrow> i32 \<times> world" where
  "bytes_loop 0 pClk pData st = st"
| "bytes_loop (Suc k) pClk pData st = bytes_loop k pClk pData (bits_loop 8 pClk pData (Suc k) st)"

text \<open>One clock cycle, and the \<open>switch\<close> of lines 93 to 120 with its fall-through.\<close>

definition pulse :: "u8 \<Rightarrow> world \<Rightarrow> world" where
  "pulse pClk w = digitalWrite (digitalWrite w pClk True) pClk False"

fun gain_pulses :: "gain \<Rightarrow> u8 \<Rightarrow> world \<Rightarrow> world" where
  "gain_pulses gain64 pClk w = pulse pClk (pulse pClk (pulse pClk w))"
| "gain_pulses gain32 pClk w = pulse pClk (pulse pClk w)"
| "gain_pulses gain128 pClk w = pulse pClk w"

text \<open>
  Lines 69 to 124: the recovery from a time-out, the time stamp, the 24 data bits, the
  gain pulses and the new conversion start time.
\<close>

definition transfer :: "SimpleHX711 \<Rightarrow> world \<Rightarrow> SimpleHX711 \<times> world" where
  "transfer s w0 =
     (let s1 = (if status s = timedOut then s\<lparr>status := init, readCount := 0\<rparr> else s);
          s2 = s1\<lparr>timestamp := conversionStartTime s1\<rparr>;
          (r, w1) = bytes_loop 3 (pinClk s2) (pinData s2) (raw s2, w0);
          s3 = s2\<lparr>raw := r\<rparr>;
          w2 = gain_pulses (gain s3) (pinClk s3) w1;
          (now, w3) = millis w2
      in (s3\<lparr>conversionStartTime := now\<rparr>, w3))"

text \<open>Lines 129 to 146: the settling reads, the first valid read, the smoothing.\<close>

definition settle :: "SimpleHX711 \<Rightarrow> bool \<times> SimpleHX711" where
  "settle s =
     (if readCount s < readsUntilValid s then
        (let s1 = s\<lparr>readCount := readCount s + 1\<rparr>
         in if readCount s1 < readsUntilValid s1 then (False, s1)
            else (True, s1\<lparr>smoothedRaw := raw s1, status := valid\<rparr>))
      else
        (True, s\<lparr>smoothedRaw :=
                    smoothedRaw s + sdiv_i32 (raw s - smoothedRaw s) 256 * ucast (alpha s),
                  status := valid\<rparr>))"

definition read :: "SimpleHX711 \<Rightarrow> world \<Rightarrow> bool \<times> SimpleHX711 \<times> world" where
  "read s w0 =
     (let (c, w1) = digitalRead w0 (pinClk s)
      in if c then (True, s\<lparr>status := poweredDown\<rparr>, w1)
         else
           (let (d, w2) = digitalRead w1 (pinData s)
            in if d then
                 (let (now, w3) = millis w2
                  in if now - conversionStartTime s \<ge> 500
                     then (True, s\<lparr>status := timedOut\<rparr>, w3)
                     else (False, s, w3))
               else
                 (let (s1, w3) = transfer s w2;
                      (done, s2) = settle s1
                  in (done, s2, w3))))"

subsection \<open>The other public members\<close>

definition getStatus :: "SimpleHX711 \<Rightarrow> status" where
  "getStatus s = status s"

definition setGain :: "SimpleHX711 \<Rightarrow> gain \<Rightarrow> SimpleHX711" where
  "setGain s g = s\<lparr>gain := g, status := init, readCount := 0\<rparr>"

definition getGain :: "SimpleHX711 \<Rightarrow> gain" where
  "getGain s = gain s"

definition setAlpha :: "SimpleHX711 \<Rightarrow> u8 \<Rightarrow> SimpleHX711" where
  "setAlpha s a = s\<lparr>alpha := a\<rparr>"

definition getAlpha :: "SimpleHX711 \<Rightarrow> u8" where
  "getAlpha s = alpha s"

definition getTimestamp :: "SimpleHX711 \<Rightarrow> u32" where
  "getTimestamp s = timestamp s"

definition getRaw :: "SimpleHX711 \<Rightarrow> bool \<Rightarrow> i32" where
  "getRaw s smoothed = (if smoothed then smoothedRaw s else raw s)"

definition tare_op :: "SimpleHX711 \<Rightarrow> bool \<Rightarrow> SimpleHX711" where
  "tare_op s smoothed = s\<lparr>tare := (if smoothed then smoothedRaw s else raw s)\<rparr>"

definition setTare :: "SimpleHX711 \<Rightarrow> i32 \<Rightarrow> SimpleHX711" where
  "setTare s t = s\<lparr>tare := t\<rparr>"

definition getTare :: "SimpleHX711 \<Rightarrow> i32" where
  "getTare s = tare s"

definition getRawMinusTare :: "SimpleHX711 \<Rightarrow> bool \<Rightarrow> i32" where
  "getRawMinusTare s smoothed = (if smoothed then smoothedRaw s - tare s else raw s - tare s)"

text \<open>\<open>adjustTo\<close> and \<open>getAdjusted\<close> divide: \<open>None\<close> is the division without a result.\<close>

definition adjustTo :: "SimpleHX711 \<Rightarrow> i32 \<Rightarrow> bool \<Rightarrow> SimpleHX711 option" where
  "adjustTo s v smoothed =
     (let v' = (if v = 0 then 1 else v)
      in map_option (\<lambda>a. s\<lparr>adjuster := a\<rparr>)
           (if smoothed then div_i32 (smoothedRaw s - tare s) v'
            else div_i32 (raw s - tare s) v'))"

definition getAdjuster :: "SimpleHX711 \<Rightarrow> i32" where
  "getAdjuster s = adjuster s"

definition setAdjuster :: "SimpleHX711 \<Rightarrow> i32 \<Rightarrow> SimpleHX711" where
  "setAdjuster s a = s\<lparr>adjuster := a\<rparr>"

definition getAdjusted :: "SimpleHX711 \<Rightarrow> bool \<Rightarrow> i32 option" where
  "getAdjusted s smoothed =
     (if smoothed then div_i32 (smoothedRaw s - tare s) (adjuster s)
      else div_i32 (raw s - tare s) (adjuster s))"

definition powerDown :: "SimpleHX711 \<Rightarrow> world \<Rightarrow> world" where
  "powerDown s w = digitalWrite w (pinClk s) True"

definition powerUp :: "SimpleHX711 \<Rightarrow> world \<Rightarrow> SimpleHX711 \<times> world" where
  "powerUp s w0 =
     (let w1 = digitalWrite w0 (pinClk s) False;
          s1 = s\<lparr>status := init, readCount := 0\<rparr>;
          (now, w2) = millis w1
      in (s1\<lparr>conversionStartTime := now\<rparr>, w2))"

definition setReadsUntilValid :: "SimpleHX711 \<Rightarrow> u8 \<Rightarrow> SimpleHX711" where
  "setReadsUntilValid s n = s\<lparr>readsUntilValid := n\<rparr>"

definition getReadsUntilValid :: "SimpleHX711 \<Rightarrow> u8" where
  "getReadsUntilValid s = readsUntilValid s"

section \<open>What a call of read sees on the two lines\<close>

definition clockAsserted :: "SimpleHX711 \<Rightarrow> world \<Rightarrow> bool" where
  "clockAsserted s w = levels w (nreads w) (pinClk s)"

definition dataAsserted :: "SimpleHX711 \<Rightarrow> world \<Rightarrow> bool" where
  "dataAsserted s w = levels w (Suc (nreads w)) (pinData s)"

text \<open>Both lines read low: the call goes on to the transfer.\<close>

definition ready :: "SimpleHX711 \<Rightarrow> world \<Rightarrow> bool" where
  "ready s w = (\<not> clockAsserted s w \<and> \<not> dataAsserted s w)"

section \<open>Sequences of calls\<close>

text \<open>
  A sequence of calls of \<open>read\<close>, each in the world it finds when it is called: what
  the lines and the clock show at one call is not determined by the call before.
\<close>

fun polls :: "SimpleHX711 \<Rightarrow> world list \<Rightarrow> SimpleHX711" where
  "polls s [] = s"
| "polls s (w # ws) = polls (fst (snd (read s w))) ws"

text \<open>The number of calls in the sequence that go on to the transfer.\<close>

definition fullTransfers :: "SimpleHX711 \<Rightarrow> world list \<Rightarrow> nat" where
  "fullTransfers s ws = length (filter (ready s) ws)"

text \<open>
  The public members as values, for sequences of arbitrary calls. A call whose division
  has no result ends the run: \<open>None\<close>.
\<close>

datatype op =
    Read | GetStatus | SetGain gain | GetGain | SetAlpha u8 | GetAlpha | GetTimestamp
  | GetRaw bool | Tare bool | SetTare i32 | GetTare | GetRawMinusTare bool
  | AdjustTo i32 bool | GetAdjuster | SetAdjuster i32 | GetAdjusted bool
  | PowerDown | PowerUp | SetReadsUntilValid u8 | GetReadsUntilValid

fun exec :: "op \<Rightarrow> world \<Rightarrow> SimpleHX711 \<Rightarrow> SimpleHX711 option" where
  "exec Read w s = Some (fst (snd (read s w)))"
| "exec (SetGain g) w s = Some (setGain s g)"
| "exec (SetAlpha a) w s = Some (setAlpha s a)"
| "exec (Tare b) w s = Some (tare_op s b)"
| "exec (SetTare t) w s = Some (setTare s t)"
| "exec (AdjustTo v b) w s = adjustTo s v b"
| "exec (SetAdjuster a) w s = Some (setAdjuster s a)"
| "exec (GetAdjusted b) w s = map_option (\<lambda>_. s) (getAdjusted s b)"
| "exec PowerUp w s = Some (fst (powerUp s w))"
| "exec (SetReadsUntilValid n) w s = Some (setReadsUntilValid s n)"
| "exec _ w s = Some s"

fun run :: "(op \<times> world) list \<Rightarrow> SimpleHX711 \<Rightarrow> SimpleHX711 option" where
  "run [] s = Some s"
| "run ((o', w) # xs) s = (case exec o' w s of None \<Rightarrow> None | Some s' \<Rightarrow> run xs s')"

text \<open>
  A run in which no call of \<open>setReadsUntilValid\<close> sets the threshold below the read
  count of the moment.
\<close>

fun lowers :: "op \<Rightarrow> SimpleHX711 \<Rightarrow> bool" where
  "lowers (SetReadsUntilValid n) s = (n < readCount s)"
| "lowers _ s = False"

fun neverLowers :: "(op \<times> world) list \<Rightarrow> SimpleHX711 \<Rightarrow> bool" where
  "neverLowers [] s = True"
| "neverLowers ((o', w) # xs) s =
     (\<not> lowers o' s \<and> (case exec o' w s of None \<Rightarrow> True | Some s' \<Rightarrow> neverLowers xs s'))"

text \<open>
  The calls that put the read count back to 0: \<open>setGain\<close>, \<open>powerUp\<close>, and a \<open>read\<close>
  that finds both lines low after a time-out.
\<close>

fun resets :: "op \<Rightarrow> world \<Rightarrow> SimpleHX711 \<Rightarrow> bool" where
  "resets (SetGain g) w s = True"
| "resets PowerUp w s = True"
| "resets Read w s = (status s = timedOut \<and> ready s w)"
| "resets _ w s = False"

text \<open>
  Whether, at the end of a run, the last call that set the threshold or reset the read
  count was a \<open>setReadsUntilValid\<close> that set the threshold below the read count of the
  moment. The flag \<open>f\<close> says so for the calls before the run.
\<close>

fun lowered :: "(op \<times> world) list \<Rightarrow> SimpleHX711 \<Rightarrow> bool \<Rightarrow> bool" where
  "lowered [] s f = f"
| "lowered ((o', w) # xs) s f =
     (case exec o' w s of
        None \<Rightarrow> f
      | Some s' \<Rightarrow>
          lowered xs s'
            (case o' of
               SetReadsUntilValid n \<Rightarrow> n < readCount s
             | _ \<Rightarrow> if resets o' w s then False else f))"

text \<open>The members that write the tare or the adjuster.\<close>

fun calibrates :: "op \<Rightarrow> bool" where
  "calibrates (Tare b) = True"
| "calibrates (SetTare t) = True"
| "calibrates (AdjustTo v b) = True"
| "calibrates (SetAdjuster a) = True"
| "calibrates _ = False"

section \<open>Concrete worlds and instances\<close>

text \<open>
  The world in which the \<open>n\<close>-th call of \<open>digitalRead\<close> returns \<open>rs ! n\<close> (low after the
  end of the list) and the \<open>n\<close>-th call of \<open>millis\<close> returns \<open>ts ! n\<close> (0 after the end).
\<close>

definition scripted :: "bool list \<Rightarrow> u32 list \<Rightarrow> world" where
  "scripted rs ts =
     \<lparr>levels = (\<lambda>n p. n < length rs \<and> rs ! n),
      ticks = (\<lambda>n. if n < length ts then ts ! n else 0),
      nreads = 0, nticks = 0, writes = [], modes = []\<rparr>"

text \<open>Clock on pin 2, data on pin 3, the default gain, constructed at time 0.\<close>

definition fresh :: "u8 \<Rightarrow> SimpleHX711" where
  "fresh rUV = fst (SimpleHX711_new 2 3 rUV gain128 (scripted [] [0]))"

text \<open>Both lines low, every data bit low, the transfer ends at time \<open>t\<close>.\<close>

definition quiet :: "u32 \<Rightarrow> world" where
  "quiet t = scripted [] [t]"

text \<open>The clock line high.\<close>

definition clockHigh :: world where
  "clockHigh = scripted [True] []"

text \<open>The clock line low, the data line high (the chip is busy), at time \<open>t\<close>.\<close>

definition busy :: "u32 \<Rightarrow> world" where
  "busy t = scripted [False, True] [t]"

text \<open>
  Both lines low, then the 24 data bits of the sample 10: \<open>_raw\<close> becomes 2560. The
  transfer ends at time \<open>t\<close>.
\<close>

definition sample10 :: "u32 \<Rightarrow> world" where
  "sample10 t = scripted ([False, False] @ replicate 20 False @ [True, False, True, False]) [t]"

text \<open>
  The chip falls silent after one good read: constructed at time 0, read at time 100, and
  at time 700 the data line has been high for 600 ms.
\<close>

definition stalled :: SimpleHX711 where
  "stalled = polls (fresh 3) [quiet 100, busy 700]"

text \<open>The steady state: three good reads of the sample 0 after construction.\<close>

definition settled :: SimpleHX711 where
  "settled = polls (fresh 3) [quiet 1, quiet 2, quiet 3]"

text \<open>
  Both lines low, then the 24 data bits of the least sample, \<open>0x800000\<close>: \<open>_raw\<close>
  becomes the least value of \<open>int32_t\<close>. The transfer ends at time \<open>t\<close>.
\<close>

definition sampleMin :: "u32 \<Rightarrow> world" where
  "sampleMin t = scripted ([False, False, True] @ replicate 23 False) [t]"

text \<open>The third good read after construction is that of the least sample.\<close>

definition minraw :: SimpleHX711 where
  "minraw = polls (fresh 3) [quiet 1, quiet 2, sampleMin 3]"

text \<open>The steady state after one more read, of the sample 10.\<close>

definition loaded :: SimpleHX711 where
  "loaded = polls (fresh 3) [quiet 1, quiet 2, quiet 3, sample10 4]"

section \<open>Signed arithmetic without wrap-around\<close>

lemma fits_i32_iff: "fits_i32 k \<longleftrightarrow> - 2147483648 \<le> k \<and> k < 2147483648"
  by (simp add: fits_i32_def)

lemma sint_word_of_int_i32:
  "fits_i32 k \<Longrightarrow> sint (word_of_int k :: i32) = k"
  by (simp add: fits_i32_def sint_sbintrunc' signed_take_bit_int_eq_self)

lemma fits_sint: "fits_i32 (sint (a :: i32))"
  using sint_ge [of a] sint_lt [of a] by (simp add: fits_i32_def)

lemma sint_sub_i32:
  "fits_i32 (sint a - sint b) \<Longrightarrow> sint (a - b :: i32) = sint a - sint b"
proof -
  assume f: "fits_i32 (sint a - sint b)"
  have "a - b = word_of_int (sint a - sint b)" by simp
  then show ?thesis using sint_word_of_int_i32 [OF f] by simp
qed

lemma sdiv_nonneg: "0 \<le> k \<Longrightarrow> 0 < l \<Longrightarrow> k sdiv l = k div l" for k l :: int
  by (cases "k = 0") (simp_all add: signed_divide_int_def)

lemma sdiv_neg: "k < 0 \<Longrightarrow> 0 < l \<Longrightarrow> k sdiv l = - ((- k) div l)" for k l :: int
  by (simp add: signed_divide_int_def)

lemma sdiv_abs_le: "\<bar>k sdiv l\<bar> \<le> \<bar>k\<bar>" for k l :: int
proof -
  have nn: "0 \<le> \<bar>k\<bar> div \<bar>l\<bar>"
    by (simp add: div_int_pos_iff)
  have "\<bar>k sdiv l\<bar> = \<bar>sgn k\<bar> * \<bar>sgn l\<bar> * (\<bar>k\<bar> div \<bar>l\<bar>)"
    using nn by (simp add: signed_divide_int_def abs_mult)
  also have "\<dots> \<le> \<bar>k\<bar> div \<bar>l\<bar>"
    using nn by (cases "k = 0"; cases "l = 0") (simp_all add: abs_sgn_eq)
  also have "\<dots> \<le> \<bar>k\<bar>"
  proof (cases "l = 0")
    case False
    then have "\<bar>k\<bar> div \<bar>l\<bar> \<le> \<bar>k\<bar> div 1"
      by (intro zdiv_mono2) simp_all
    then show ?thesis by simp
  qed simp
  finally show ?thesis .
qed

lemma sint_sdiv_i32:
  assumes "\<not> (sint a = - (2 ^ 31) \<and> sint b = - 1)"
  shows "sint (sdiv_i32 a b) = sint a sdiv sint b"
proof -
  have a: "fits_i32 (sint a)" by (rule fits_sint)
  have le: "\<bar>sint a sdiv sint b\<bar> \<le> \<bar>sint a\<bar>" by (rule sdiv_abs_le)
  have "fits_i32 (sint a sdiv sint b)"
  proof (cases "sint a = - 2147483648")
    case False
    then show ?thesis using a le unfolding fits_i32_iff by linarith
  next
    case True
    then have b: "sint b \<noteq> - 1" using assms by simp
    show ?thesis
    proof (cases "sint b < 0")
      case False
      then have "sint a sdiv sint b \<le> 0"
        using True by (simp add: signed_divide_int_def sgn_if pos_imp_zdiv_nonneg_iff)
      then show ?thesis using le a unfolding fits_i32_iff by linarith
    next
      case neg: True
      then have "2 \<le> \<bar>sint b\<bar>" using b by simp
      then have "\<bar>sint a\<bar> div \<bar>sint b\<bar> \<le> \<bar>sint a\<bar> div 2"
        by (intro zdiv_mono2) simp_all
      then have "sint a sdiv sint b \<le> 1073741824"
        using True neg by (simp add: signed_divide_int_def sgn_if)
      then show ?thesis using le a unfolding fits_i32_iff by linarith
    qed
  qed
  then show ?thesis by (simp add: sdiv_i32_def sint_word_of_int_i32)
qed

lemma sint_ucast_u8: "sint (ucast (x :: u8) :: i32) = uint x"
proof -
  have "uint x < 256" "0 \<le> uint x" using uint_lt2p [of x] by simp_all
  then have "fits_i32 (uint x)" unfolding fits_i32_iff by linarith
  moreover have "(ucast x :: i32) = word_of_int (uint x)" by simp
  ultimately show ?thesis using sint_word_of_int_i32 by metis
qed

lemma smoothing_in_range:
  fixes r sm :: i32 and al :: u8
  assumes f: "fits_i32 (sint r - sint sm)"
  shows "sint (sm + sdiv_i32 (r - sm) 256 * ucast al)
       = sint sm + ((sint r - sint sm) sdiv 256) * uint al"
proof -
  define D where "D = sint r - sint sm"
  define q where "q = D sdiv 256"
  define a where "a = uint al"
  have a: "0 \<le> a" "a \<le> 255" using uint_lt2p [of al] by (simp_all add: a_def)
  have d: "sint (r - sm) = D" using f by (simp add: D_def sint_sub_i32)
  have "sint (256 :: i32) = 256" by simp
  then have q: "sint (sdiv_i32 (r - sm) 256) = q"
    using sint_sdiv_i32 [of "r - sm" 256] d by (simp add: q_def)
  have between: "(0 \<le> D \<and> 0 \<le> q * a \<and> q * a \<le> D) \<or> (D < 0 \<and> D \<le> q * a \<and> q * a \<le> 0)"
  proof (cases "0 \<le> D")
    case True
    then have q0: "q = D div 256" "0 \<le> q" by (simp_all add: q_def sdiv_nonneg)
    have "q * 256 \<le> D" using q0 True by simp
    moreover have "q * a \<le> q * 256" using q0 a by (intro mult_left_mono) simp_all
    moreover have "0 \<le> q * a" using q0 a by simp
    ultimately show ?thesis using True by simp
  next
    case False
    then have q0: "q = - ((- D) div 256)" by (simp add: q_def sdiv_neg)
    define p where "p = (- D) div 256"
    have p: "0 \<le> p" "p * 256 \<le> - D" using False by (simp_all add: p_def)
    have "p * a \<le> p * 256" using p a by (intro mult_left_mono) simp_all
    moreover have "0 \<le> p * a" using p a by simp
    moreover have "q * a = - (p * a)" by (simp add: q0 p_def)
    ultimately show ?thesis using False p by simp
  qed
  have fits: "fits_i32 (sint sm + q * a)"
    using between fits_sint [of sm] fits_sint [of r] unfolding fits_i32_iff D_def by linarith
  have "sm + sdiv_i32 (r - sm) 256 * ucast al
       = word_of_int (sint sm + sint (sdiv_i32 (r - sm) 256) * sint (ucast al :: i32))"
    by simp
  also have "\<dots> = word_of_int (sint sm + q * a)"
    by (simp only: q sint_ucast_u8 a_def)
  finally have "sint (sm + sdiv_i32 (r - sm) 256 * ucast al) = sint sm + q * a"
    using sint_word_of_int_i32 [OF fits] by (simp only:)
  then show ?thesis by (simp only: q_def a_def D_def)
qed

lemma one_less_u8: "1 < x \<longleftrightarrow> x \<noteq> 0 \<and> x \<noteq> 1" for x :: u8
proof -
  have "unat x = 0 \<longleftrightarrow> x = 0" "unat x = 1 \<longleftrightarrow> x = 1"
    by (simp_all add: unat_0_iff word_unat_eq_iff [of x 1])
  then show ?thesis unfolding word_less_nat_alt by auto
qed

lemma sint_eq_imp_eq: "sint a = sint b \<Longrightarrow> a = b" for a b :: i32
  by (simp add: signed_word_eqI)

lemma sdiv_small: "- 256 < k \<Longrightarrow> k < 256 \<Longrightarrow> k sdiv 256 = 0" for k :: int
  by (cases "0 \<le> k") (simp_all add: sdiv_nonneg sdiv_neg)

lemma sdiv_i32_one: "sdiv_i32 x 1 = x"
proof -
  have "k sdiv 1 = k" for k :: int
    by (simp add: signed_divide_int_def sgn_mult_abs)
  then show ?thesis by (simp add: sdiv_i32_def)
qed

lemma sint_sdiv_diff:
  fixes x t v :: i32
  assumes f: "fits_i32 (sint x - sint t)"
    and o: "\<not> (sint x - sint t = - (2 ^ 31) \<and> sint v = - 1)"
  shows "sint (sdiv_i32 (x - t) v) = (sint x - sint t) sdiv sint v"
proof -
  have d: "sint (x - t) = sint x - sint t" using f by (rule sint_sub_i32)
  then have "\<not> (sint (x - t) = - (2 ^ 31) \<and> sint v = - 1)" using o by simp
  then show ?thesis using d by (simp add: sint_sdiv_i32)
qed

lemma div_i32_Some:
  assumes "b \<noteq> 0" and "\<not> (sint a = - (2 ^ 31) \<and> sint b = - 1)"
  shows "div_i32 a b = Some (sdiv_i32 a b)"
  using assms by (simp add: div_i32_def)

lemma div_i32_overflow:
  assumes "sint a = - (2 ^ 31) \<and> sint b = - 1"
  shows "div_i32 a b = None"
  using assms by (simp add: div_i32_def)

lemma adjustTo_getRaw:
  "adjustTo s v smoothed =
     map_option (\<lambda>a. s\<lparr>adjuster := a\<rparr>)
       (div_i32 (getRaw s smoothed - tare s) (if v = 0 then 1 else v))"
  by (simp add: adjustTo_def getRaw_def)

lemma getAdjusted_getRaw:
  "getAdjusted s smoothed = div_i32 (getRaw s smoothed - tare s) (adjuster s)"
  by (simp add: getAdjusted_def getRaw_def)

section \<open>The branches of read\<close>

lemma read_ready:
  assumes "ready s w"
  shows "read s w =
    (fst (settle (fst (transfer s (w\<lparr>nreads := Suc (Suc (nreads w))\<rparr>)))),
     snd (settle (fst (transfer s (w\<lparr>nreads := Suc (Suc (nreads w))\<rparr>)))),
     snd (transfer s (w\<lparr>nreads := Suc (Suc (nreads w))\<rparr>)))"
  using assms
  by (simp add: read_def ready_def clockAsserted_def dataAsserted_def digitalRead_def
      split: prod.splits)

lemma read_busy:
  assumes "\<not> clockAsserted s w" "dataAsserted s w"
  shows "fst (snd (read s w)) =
    (if ticks w (nticks w) - conversionStartTime s \<ge> 500 then s\<lparr>status := timedOut\<rparr> else s)"
    and "fst (read s w) = (ticks w (nticks w) - conversionStartTime s \<ge> 500)"
  using assms
  by (simp_all add: read_def clockAsserted_def dataAsserted_def digitalRead_def millis_def
      split: prod.splits)

lemma transfer_fields:
  "status (fst (transfer s w)) = (if status s = timedOut then init else status s)"
  "readCount (fst (transfer s w)) = (if status s = timedOut then 0 else readCount s)"
  "smoothedRaw (fst (transfer s w)) = smoothedRaw s"
  "alpha (fst (transfer s w)) = alpha s"
  "tare (fst (transfer s w)) = tare s"
  "adjuster (fst (transfer s w)) = adjuster s"
  "gain (fst (transfer s w)) = gain s"
  "pinClk (fst (transfer s w)) = pinClk s"
  "pinData (fst (transfer s w)) = pinData s"
  "readsUntilValid (fst (transfer s w)) = readsUntilValid s"
  "timestamp (fst (transfer s w)) = conversionStartTime s"
  "raw (fst (transfer s w)) = fst (bytes_loop 3 (pinClk s) (pinData s) (raw s, w))"
  by (simp_all add: transfer_def Let_def split: prod.splits)

lemma settle_fields:
  "pinClk (snd (settle s)) = pinClk s"
  "pinData (snd (settle s)) = pinData s"
  "raw (snd (settle s)) = raw s"
  "tare (snd (settle s)) = tare s"
  "adjuster (snd (settle s)) = adjuster s"
  "alpha (snd (settle s)) = alpha s"
  "gain (snd (settle s)) = gain s"
  "timestamp (snd (settle s)) = timestamp s"
  "readsUntilValid (snd (settle s)) = readsUntilValid s"
  by (simp_all add: settle_def Let_def)

lemma settle_below:
  assumes "readCount s < readsUntilValid s"
  shows "readCount (snd (settle s)) = readCount s + 1"
    and "unat (readCount (snd (settle s))) = Suc (unat (readCount s))"
    and "readCount (snd (settle s)) \<le> readsUntilValid s"
    and "fst (settle s) = (readCount s + 1 = readsUntilValid s)"
    and "status (snd (settle s)) = (if readCount s + 1 = readsUntilValid s then valid else status s)"
    and "smoothedRaw (snd (settle s)) = (if readCount s + 1 = readsUntilValid s then raw s else smoothedRaw s)"
proof -
  have lt: "unat (readCount s) < unat (readsUntilValid s)"
    using assms by (simp add: word_less_nat_alt)
  have "unat (readsUntilValid s) < 256" using unsigned_less [of "readsUntilValid s", where ?'a = nat] by simp
  then have suc: "unat (readCount s + 1) = Suc (unat (readCount s))"
    using lt by (simp add: unat_word_ariths)
  then have le: "readCount s + 1 \<le> readsUntilValid s"
    using lt by (simp add: word_le_nat_alt)
  then have iff: "(readCount s + 1 < readsUntilValid s) = (readCount s + 1 \<noteq> readsUntilValid s)"
    by auto
  show "readCount (snd (settle s)) = readCount s + 1"
    using assms by (simp add: settle_def Let_def)
  then show "unat (readCount (snd (settle s))) = Suc (unat (readCount s))"
    using suc by simp
  show "readCount (snd (settle s)) \<le> readsUntilValid s"
    using assms le by (simp add: settle_def Let_def)
  show "fst (settle s) = (readCount s + 1 = readsUntilValid s)"
    using assms iff by (simp add: settle_def Let_def)
  show "status (snd (settle s)) = (if readCount s + 1 = readsUntilValid s then valid else status s)"
    using assms iff by (simp add: settle_def Let_def)
  show "smoothedRaw (snd (settle s)) = (if readCount s + 1 = readsUntilValid s then raw s else smoothedRaw s)"
    using assms iff by (simp add: settle_def Let_def)
qed

lemma settle_steady:
  assumes "\<not> readCount s < readsUntilValid s"
  shows "settle s = (True, s\<lparr>smoothedRaw :=
            smoothedRaw s + sdiv_i32 (raw s - smoothedRaw s) 256 * ucast (alpha s),
            status := valid\<rparr>)"
  using assms by (simp add: settle_def)

lemma read_down:
  assumes "clockAsserted s w"
  shows "read s w = (True, s\<lparr>status := poweredDown\<rparr>, w\<lparr>nreads := Suc (nreads w)\<rparr>)"
  using assms by (simp add: read_def clockAsserted_def digitalRead_def)

lemma read_cases:
  obtains (down) "clockAsserted s w"
  | (busy) "\<not> clockAsserted s w" "dataAsserted s w"
  | (go) "ready s w"
  by (auto simp: ready_def)

lemma read_frame:
  "pinClk (fst (snd (read s w))) = pinClk s"
  "pinData (fst (snd (read s w))) = pinData s"
  "readsUntilValid (fst (snd (read s w))) = readsUntilValid s"
  "tare (fst (snd (read s w))) = tare s"
  "adjuster (fst (snd (read s w))) = adjuster s"
  "alpha (fst (snd (read s w))) = alpha s"
  "gain (fst (snd (read s w))) = gain s"
proof -
  have "pinClk (fst (snd (read s w))) = pinClk s
      \<and> pinData (fst (snd (read s w))) = pinData s
      \<and> readsUntilValid (fst (snd (read s w))) = readsUntilValid s
      \<and> tare (fst (snd (read s w))) = tare s
      \<and> adjuster (fst (snd (read s w))) = adjuster s
      \<and> alpha (fst (snd (read s w))) = alpha s
      \<and> gain (fst (snd (read s w))) = gain s"
  proof (cases s w rule: read_cases)
    case down
    then show ?thesis by (simp add: read_down)
  next
    case busy
    then show ?thesis by (simp add: read_busy)
  next
    case go
    then show ?thesis by (simp add: read_ready settle_fields transfer_fields)
  qed
  then show "pinClk (fst (snd (read s w))) = pinClk s"
    "pinData (fst (snd (read s w))) = pinData s"
    "readsUntilValid (fst (snd (read s w))) = readsUntilValid s"
    "tare (fst (snd (read s w))) = tare s"
    "adjuster (fst (snd (read s w))) = adjuster s"
    "alpha (fst (snd (read s w))) = alpha s"
    "gain (fst (snd (read s w))) = gain s"
    by simp_all
qed

lemma read_settling:
  assumes r: "ready s w"
    and c: "(if status s = timedOut then 0 else readCount s) < readsUntilValid s"
  shows "fst (read s w) =
           ((if status s = timedOut then 0 else readCount s) + 1 = readsUntilValid s)"
    and "readCount (fst (snd (read s w))) = (if status s = timedOut then 0 else readCount s) + 1"
    and "status (fst (snd (read s w))) =
           (if (if status s = timedOut then 0 else readCount s) + 1 = readsUntilValid s then valid
            else if status s = timedOut then init else status s)"
    and "smoothedRaw (fst (snd (read s w))) =
           (if (if status s = timedOut then 0 else readCount s) + 1 = readsUntilValid s
            then raw (fst (snd (read s w))) else smoothedRaw s)"
proof -
  let ?t = "fst (transfer s (w\<lparr>nreads := Suc (Suc (nreads w))\<rparr>))"
  have lt: "readCount ?t < readsUntilValid ?t"
    using c by (simp add: transfer_fields)
  show "fst (read s w) =
           ((if status s = timedOut then 0 else readCount s) + 1 = readsUntilValid s)"
    using settle_below(4) [OF lt] by (simp add: read_ready [OF r] transfer_fields)
  show "readCount (fst (snd (read s w))) = (if status s = timedOut then 0 else readCount s) + 1"
    using settle_below(1) [OF lt] by (simp add: read_ready [OF r] transfer_fields)
  show "status (fst (snd (read s w))) =
           (if (if status s = timedOut then 0 else readCount s) + 1 = readsUntilValid s then valid
            else if status s = timedOut then init else status s)"
    using settle_below(5) [OF lt] by (simp add: read_ready [OF r] transfer_fields)
  show "smoothedRaw (fst (snd (read s w))) =
           (if (if status s = timedOut then 0 else readCount s) + 1 = readsUntilValid s
            then raw (fst (snd (read s w))) else smoothedRaw s)"
    using settle_below(6) [OF lt]
    by (simp add: read_ready [OF r] transfer_fields settle_fields)
qed

lemma read_steady:
  assumes r: "ready s w"
    and c: "\<not> (if status s = timedOut then 0 else readCount s) < readsUntilValid s"
  shows "fst (read s w)"
    and "readCount (fst (snd (read s w))) = (if status s = timedOut then 0 else readCount s)"
    and "status (fst (snd (read s w))) = valid"
    and "smoothedRaw (fst (snd (read s w))) =
           smoothedRaw s
           + sdiv_i32 (raw (fst (snd (read s w))) - smoothedRaw s) 256 * ucast (alpha s)"
proof -
  let ?t = "fst (transfer s (w\<lparr>nreads := Suc (Suc (nreads w))\<rparr>))"
  have ge: "\<not> readCount ?t < readsUntilValid ?t"
    using c by (simp add: transfer_fields)
  show "fst (read s w)"
    by (simp add: read_ready [OF r] settle_steady [OF ge])
  show "readCount (fst (snd (read s w))) = (if status s = timedOut then 0 else readCount s)"
    by (simp add: read_ready [OF r] settle_steady [OF ge] transfer_fields)
  show "status (fst (snd (read s w))) = valid"
    by (simp add: read_ready [OF r] settle_steady [OF ge])
  show "smoothedRaw (fst (snd (read s w))) =
           smoothedRaw s
           + sdiv_i32 (raw (fst (snd (read s w))) - smoothedRaw s) 256 * ucast (alpha s)"
    by (simp add: read_ready [OF r] settle_steady [OF ge] transfer_fields)
qed

lemma read_raw:
  assumes "ready s w"
  shows "raw (fst (snd (read s w))) =
           fst (bytes_loop 3 (pinClk s) (pinData s) (raw s, w\<lparr>nreads := Suc (Suc (nreads w))\<rparr>))"
    and "timestamp (fst (snd (read s w))) = conversionStartTime s"
  by (simp_all add: read_ready [OF assms] settle_fields transfer_fields)

lemma new_fields:
  "pinClk (fst (SimpleHX711_new pClk pData rUV g w)) = pClk"
  "pinData (fst (SimpleHX711_new pClk pData rUV g w)) = pData"
  "gain (fst (SimpleHX711_new pClk pData rUV g w)) = g"
  "tare (fst (SimpleHX711_new pClk pData rUV g w)) = 0"
  "alpha (fst (SimpleHX711_new pClk pData rUV g w)) = 200"
  "timestamp (fst (SimpleHX711_new pClk pData rUV g w)) = 0"
  "raw (fst (SimpleHX711_new pClk pData rUV g w)) = 0"
  "smoothedRaw (fst (SimpleHX711_new pClk pData rUV g w)) = 0"
  "adjuster (fst (SimpleHX711_new pClk pData rUV g w)) = 256"
  "status (fst (SimpleHX711_new pClk pData rUV g w)) = init"
  "readCount (fst (SimpleHX711_new pClk pData rUV g w)) = 0"
  "readsUntilValid (fst (SimpleHX711_new pClk pData rUV g w)) = rUV"
  by (simp_all add: SimpleHX711_new_def Let_def split: prod.splits)

section \<open>Sequences of calls: what they keep\<close>

lemma polls_frame:
  "pinClk (polls s ws) = pinClk s \<and> pinData (polls s ws) = pinData s
   \<and> readsUntilValid (polls s ws) = readsUntilValid s
   \<and> tare (polls s ws) = tare s \<and> adjuster (polls s ws) = adjuster s
   \<and> alpha (polls s ws) = alpha s \<and> gain (polls s ws) = gain s"
  by (induction ws arbitrary: s) (simp_all add: read_frame)

lemma read_bounded:
  assumes i: "readCount s \<le> readsUntilValid s"
  shows "readCount (fst (snd (read s w))) \<le> readsUntilValid (fst (snd (read s w)))"
proof (cases s w rule: read_cases)
  case down
  then show ?thesis using i by (simp add: read_down)
next
  case busy
  then show ?thesis using i by (simp add: read_busy)
next
  case go
  let ?c = "if status s = timedOut then 0 else readCount s"
  show ?thesis
  proof (cases "?c < readsUntilValid s")
    case True
    let ?t = "fst (transfer s (w\<lparr>nreads := Suc (Suc (nreads w))\<rparr>))"
    have "readCount ?t < readsUntilValid ?t" using True by (simp add: transfer_fields)
    from settle_below(3) [OF this] show ?thesis
      by (simp add: read_ready [OF go] settle_fields transfer_fields)
  next
    case False
    from read_steady(2) [OF go False] show ?thesis using i by (simp add: read_frame)
  qed
qed

lemma exec_bounded:
  assumes i: "readCount s \<le> readsUntilValid s"
    and l: "\<not> lowers o' s"
    and e: "exec o' w s = Some s'"
  shows "readCount s' \<le> readsUntilValid s'"
proof (cases o')
  case Read
  then show ?thesis using e read_bounded [OF i] by auto
next
  case (SetReadsUntilValid n)
  then show ?thesis using e l by (auto simp: setReadsUntilValid_def)
next
  case (AdjustTo v b)
  then show ?thesis using e i by (auto simp: adjustTo_def Let_def)
next
  case PowerUp
  then show ?thesis using e by (auto simp: powerUp_def millis_def Let_def)
qed (use e i in \<open>auto simp: setGain_def setAlpha_def tare_op_def setTare_def setAdjuster_def\<close>)

lemma run_bounded:
  assumes "readCount s \<le> readsUntilValid s" "neverLowers steps s" "run steps s = Some s'"
  shows "readCount s' \<le> readsUntilValid s'"
  using assms
proof (induction steps arbitrary: s)
  case Nil
  then show ?case by simp
next
  case (Cons x xs)
  obtain o' w where x: "x = (o', w)" by (cases x)
  from Cons.prems(3) obtain s1 where e: "exec o' w s = Some s1" and r: "run xs s1 = Some s'"
    by (auto simp: x split: option.splits)
  from Cons.prems(2) have l: "\<not> lowers o' s" and n: "neverLowers xs s1"
    using e by (simp_all add: x)
  from exec_bounded [OF Cons.prems(1) l e] have "readCount s1 \<le> readsUntilValid s1" .
  from Cons.IH [OF this n r] show ?case .
qed

lemma read_exceeds:
  "(readsUntilValid (fst (snd (read s w))) < readCount (fst (snd (read s w)))) =
     (if status s = timedOut \<and> ready s w then False else readsUntilValid s < readCount s)"
proof (cases s w rule: read_cases)
  case down
  then have "\<not> ready s w" by (simp add: ready_def)
  then show ?thesis using down by (simp add: read_down)
next
  case busy
  then have "\<not> ready s w" by (simp add: ready_def)
  then show ?thesis using busy by (simp add: read_busy)
next
  case go
  let ?c = "if status s = timedOut then 0 else readCount s"
  show ?thesis
  proof (cases "?c < readsUntilValid s")
    case True
    let ?t = "fst (transfer s (w\<lparr>nreads := Suc (Suc (nreads w))\<rparr>))"
    have "readCount ?t < readsUntilValid ?t" using True by (simp add: transfer_fields)
    from settle_below(3) [OF this]
    have "readCount (fst (snd (read s w))) \<le> readsUntilValid (fst (snd (read s w)))"
      by (simp add: read_ready [OF go] settle_fields transfer_fields)
    then have "\<not> readsUntilValid (fst (snd (read s w))) < readCount (fst (snd (read s w)))"
      by simp
    moreover have "\<not> readsUntilValid s < ?c" using True by simp
    ultimately show ?thesis using go by (simp split: if_splits)
  next
    case False
    from read_steady(2) [OF go False] show ?thesis using go by (simp add: read_frame)
  qed
qed

lemma exec_exceeds:
  assumes e: "exec o' w s = Some s1"
  shows "(readsUntilValid s1 < readCount s1) =
     (case o' of
        SetReadsUntilValid n \<Rightarrow> n < readCount s
      | _ \<Rightarrow> if resets o' w s then False else readsUntilValid s < readCount s)"
proof (cases o')
  case Read
  then show ?thesis using e read_exceeds [of s w] by auto
next
  case (SetReadsUntilValid n)
  then show ?thesis using e by (auto simp: setReadsUntilValid_def)
next
  case (AdjustTo v b)
  then show ?thesis using e by (auto simp: adjustTo_def Let_def)
next
  case PowerUp
  then show ?thesis using e by (auto simp: powerUp_def millis_def Let_def)
qed (use e in \<open>auto simp: setGain_def setAlpha_def tare_op_def setTare_def setAdjuster_def\<close>)

lemma run_exceeds:
  assumes "f = (readsUntilValid s < readCount s)" and "run steps s = Some s'"
  shows "(readsUntilValid s' < readCount s') = lowered steps s f"
  using assms
proof (induction steps arbitrary: s f)
  case Nil
  then show ?case by simp
next
  case (Cons x xs)
  obtain o' w where x: "x = (o', w)" by (cases x)
  from Cons.prems(2) obtain s1 where e: "exec o' w s = Some s1" and r: "run xs s1 = Some s'"
    by (auto simp: x split: option.splits)
  let ?f = "case o' of
        SetReadsUntilValid n \<Rightarrow> n < readCount s
      | _ \<Rightarrow> if resets o' w s then False else f"
  have "?f = (readsUntilValid s1 < readCount s1)"
    unfolding exec_exceeds [OF e] Cons.prems(1) ..
  from Cons.IH [OF this r] show ?case by (simp add: x e)
qed

lemma ready_pins:
  assumes "pinClk s' = pinClk s" "pinData s' = pinData s"
  shows "ready s' = ready s"
  using assms by (simp add: fun_eq_iff ready_def clockAsserted_def dataAsserted_def)

lemma fullTransfers_pins:
  assumes "pinClk s' = pinClk s" "pinData s' = pinData s"
  shows "fullTransfers s' ws = fullTransfers s ws"
  by (simp add: fullTransfers_def ready_pins [OF assms])

lemma fullTransfers_Cons:
  "fullTransfers s (w # ws) = (if ready s w then Suc (fullTransfers s ws) else fullTransfers s ws)"
  by (simp add: fullTransfers_def)

lemma polls_not_valid:
  assumes "status s \<noteq> valid"
    and "unat (readCount s) + fullTransfers s ws < unat (readsUntilValid s)"
  shows "status (polls s ws) \<noteq> valid"
  using assms
proof (induction ws arbitrary: s)
  case Nil
  then show ?case by simp
next
  case (Cons w ws)
  let ?s = "fst (snd (read s w))"
  have ft: "fullTransfers ?s ws = fullTransfers s ws"
    by (rule fullTransfers_pins) (simp_all add: read_frame)
  have "status ?s \<noteq> valid \<and> unat (readCount ?s) + fullTransfers ?s ws < unat (readsUntilValid ?s)"
  proof (cases s w rule: read_cases)
    case down
    then have nr: "\<not> ready s w" by (simp add: ready_def)
    have a: "status ?s \<noteq> valid" "readCount ?s = readCount s"
      using down by (simp_all add: read_down)
    show ?thesis using Cons.prems nr a unfolding ft
      by (simp add: read_frame fullTransfers_Cons)
  next
    case busy
    then have nr: "\<not> ready s w" by (simp add: ready_def)
    have a: "status ?s \<noteq> valid" "readCount ?s = readCount s"
      using busy Cons.prems(1) by (simp_all add: read_busy)
    show ?thesis using Cons.prems nr a unfolding ft
      by (simp add: read_frame fullTransfers_Cons)
  next
    case go
    let ?c = "if status s = timedOut then 0 else readCount s"
    have cle: "unat ?c \<le> unat (readCount s)" by simp
    have sum: "Suc (unat ?c) + fullTransfers s ws < unat (readsUntilValid s)"
      using Cons.prems(2) go cle by (simp add: fullTransfers_Cons)
    then have lt: "?c < readsUntilValid s" by (simp add: word_less_nat_alt)
    have "unat (readsUntilValid s) < 256"
      using unsigned_less [of "readsUntilValid s", where ?'a = nat] by simp
    then have suc: "unat (?c + 1) = Suc (unat ?c)"
      using sum by (simp add: unat_word_ariths)
    then have ne: "?c + 1 \<noteq> readsUntilValid s" using sum by auto
    note st = read_settling [OF go lt]
    have "status ?s \<noteq> valid" using st(3) ne Cons.prems(1) by auto
    moreover have "unat (readCount ?s) = Suc (unat ?c)" using st(2) suc by simp
    ultimately show ?thesis using sum unfolding ft by (simp add: read_frame)
  qed
  then have "status (polls ?s ws) \<noteq> valid" by (intro Cons.IH) simp_all
  then show ?case by simp
qed

lemma polls_valid:
  assumes "status s \<noteq> timedOut"
    and "readCount s < readsUntilValid s"
    and "list_all (ready s) ws"
    and "length ws = unat (readsUntilValid s) - unat (readCount s)"
  shows "status (polls s ws) = valid"
  using assms
proof (induction ws arbitrary: s)
  case Nil
  then show ?case by (simp add: word_less_nat_alt)
next
  case (Cons w ws)
  let ?s = "fst (snd (read s w))"
  have go: "ready s w" using Cons.prems(3) by simp
  have lt: "(if status s = timedOut then 0 else readCount s) < readsUntilValid s"
    using Cons.prems(1,2) by simp
  note st = read_settling [OF go lt]
  have n: "unat (readCount s) < unat (readsUntilValid s)"
    using Cons.prems(2) by (simp add: word_less_nat_alt)
  have "unat (readsUntilValid s) < 256"
    using unsigned_less [of "readsUntilValid s", where ?'a = nat] by simp
  then have suc: "unat (readCount s + 1) = Suc (unat (readCount s))"
    using n by (simp add: unat_word_ariths)
  have rc: "readCount ?s = readCount s + 1" using st(2) Cons.prems(1) by simp
  show ?case
  proof (cases "readCount s + 1 = readsUntilValid s")
    case True
    then have "unat (readsUntilValid s) = Suc (unat (readCount s))" using suc by simp
    then have "ws = []" using Cons.prems(4) by simp
    moreover have "status ?s = valid" using st(3) True Cons.prems(1) by simp
    ultimately show ?thesis by simp
  next
    case False
    have a: "status ?s \<noteq> timedOut" using st(3) False Cons.prems(1) by simp
    have "unat (readCount s + 1) \<noteq> unat (readsUntilValid s)"
      using False by (simp add: word_unat_eq_iff)
    then have b: "readCount ?s < readsUntilValid ?s"
      using n suc by (simp add: rc read_frame word_less_nat_alt)
    have c: "list_all (ready ?s) ws"
      using Cons.prems(3) ready_pins [of ?s s] by (simp add: read_frame)
    have d: "length ws = unat (readsUntilValid ?s) - unat (readCount ?s)"
      using Cons.prems(4) suc by (simp add: rc read_frame)
    from Cons.IH [OF a b c d] show ?thesis by simp
  qed
qed

lemma exec_calibration:
  assumes "\<not> calibrates o'" and "exec o' w s = Some s'"
  shows "tare s' = tare s \<and> adjuster s' = adjuster s"
proof (cases o')
  case Read
  then show ?thesis using assms by (auto simp: read_frame)
next
  case PowerUp
  then show ?thesis using assms by (auto simp: powerUp_def millis_def Let_def)
qed (use assms in \<open>auto simp: setGain_def setAlpha_def setReadsUntilValid_def\<close>)

lemma run_calibration:
  assumes "list_all (\<lambda>x. \<not> calibrates (fst x)) steps" and "run steps s = Some s'"
  shows "tare s' = tare s \<and> adjuster s' = adjuster s"
  using assms
proof (induction steps arbitrary: s)
  case Nil
  then show ?case by simp
next
  case (Cons x xs)
  obtain o' w where x: "x = (o', w)" by (cases x)
  from Cons.prems(2) obtain s1 where e: "exec o' w s = Some s1" and r: "run xs s1 = Some s'"
    by (auto simp: x split: option.splits)
  from Cons.prems(1) have c: "\<not> calibrates o'" and l: "list_all (\<lambda>x. \<not> calibrates (fst x)) xs"
    by (simp_all add: x)
  from exec_calibration [OF c e] Cons.IH [OF l r] show ?case by simp
qed

section \<open>The concrete instances, evaluated\<close>

lemma fresh_eq:
  "fresh n = \<lparr>pinClk = 2, pinData = 3, gain = gain128, tare = 0, alpha = 200,
     timestamp = 0, raw = 0, smoothedRaw = 0, adjuster = 256, conversionStartTime = 0,
     status = init, readCount = 0, readsUntilValid = n\<rparr>"
  by (simp add: fresh_def SimpleHX711_new_def pinMode_def millis_def scripted_def)

lemma settled_eq:
  "settled = \<lparr>pinClk = 2, pinData = 3, gain = gain128, tare = 0, alpha = 200,
     timestamp = 2, raw = 0, smoothedRaw = 0, adjuster = 256, conversionStartTime = 3,
     status = valid, readCount = 3, readsUntilValid = 3\<rparr>"
  by code_simp

lemma ready_scripted:
  "ready s (scripted rs ts) = (\<not> (0 < length rs \<and> rs ! 0) \<and> \<not> (1 < length rs \<and> rs ! 1))"
  by (simp add: ready_def clockAsserted_def dataAsserted_def scripted_def)

lemma read_settled_sample10:
  "fst (read settled (sample10 4))"
  "fst (snd (read settled (sample10 4))) =
     settled\<lparr>timestamp := 3, raw := 2560, smoothedRaw := 2000, conversionStartTime := 4\<rparr>"
  unfolding settled_eq by code_simp+

lemma read_fresh0_sample10:
  "fst (read (fresh 0) (sample10 4))"
  "fst (snd (read (fresh 0) (sample10 4))) =
     (fresh 0)\<lparr>raw := 2560, smoothedRaw := 2000, conversionStartTime := 4, status := valid\<rparr>"
  unfolding fresh_eq by code_simp+

lemma loaded_eq:
  "loaded = \<lparr>pinClk = 2, pinData = 3, gain = gain128, tare = 0, alpha = 200,
     timestamp = 3, raw = 2560, smoothedRaw = 2000, adjuster = 256, conversionStartTime = 4,
     status = valid, readCount = 3, readsUntilValid = 3\<rparr>"
  by code_simp

lemma minraw_eq:
  "minraw = \<lparr>pinClk = 2, pinData = 3, gain = gain128, tare = 0, alpha = 200,
     timestamp = 2, raw = - 2147483648, smoothedRaw = - 2147483648, adjuster = 256,
     conversionStartTime = 3, status = valid, readCount = 3, readsUntilValid = 3\<rparr>"
  by code_simp

lemma sint_min_i32: "sint (- 2147483648 :: i32) = - 2147483648"
  by simp

section \<open>Powered down\<close>

text \<open>
  C4. When the clock line reads asserted at the start of \<open>read\<close>, the call returns true,
  the status is \<open>poweredDown\<close>, and every other member is as before: the raw and the
  smoothed reading, the time stamp, the read count, the tare, the adjuster, alpha,
  \<open>readsUntilValid\<close> and the gain.
\<close>

theorem read_poweredDown:
  assumes "clockAsserted s w"
  shows "fst (read s w) = True
       \<and> fst (snd (read s w)) = s\<lparr>status := poweredDown\<rparr>
       \<and> status (fst (snd (read s w))) = poweredDown
       \<and> raw (fst (snd (read s w))) = raw s
       \<and> smoothedRaw (fst (snd (read s w))) = smoothedRaw s
       \<and> timestamp (fst (snd (read s w))) = timestamp s
       \<and> readCount (fst (snd (read s w))) = readCount s
       \<and> tare (fst (snd (read s w))) = tare s
       \<and> adjuster (fst (snd (read s w))) = adjuster s
       \<and> alpha (fst (snd (read s w))) = alpha s
       \<and> readsUntilValid (fst (snd (read s w))) = readsUntilValid s
       \<and> gain (fst (snd (read s w))) = gain s"
  by (simp add: read_down [OF assms])

theorem read_poweredDown_witness:
  "clockAsserted loaded clockHigh
   \<and> fst (read loaded clockHigh) = True
   \<and> fst (snd (read loaded clockHigh)) = loaded\<lparr>status := poweredDown\<rparr>
   \<and> status loaded = valid
   \<and> status (fst (snd (read loaded clockHigh))) = poweredDown
   \<and> raw (fst (snd (read loaded clockHigh))) = 2560
   \<and> smoothedRaw (fst (snd (read loaded clockHigh))) = 2000
   \<and> timestamp (fst (snd (read loaded clockHigh))) = 3
   \<and> readCount (fst (snd (read loaded clockHigh))) = 3
   \<and> adjuster (fst (snd (read loaded clockHigh))) = 256"
proof -
  have h: "clockAsserted loaded clockHigh"
    by (simp add: clockAsserted_def clockHigh_def scripted_def)
  have f: "status loaded = valid" "raw loaded = 2560" "smoothedRaw loaded = 2000"
    "timestamp loaded = 3" "readCount loaded = 3" "adjuster loaded = 256"
    by (simp_all add: loaded_eq)
  show ?thesis using h f read_poweredDown [OF h] by simp
qed

section \<open>Settling reads\<close>

text \<open>
  C1. An instance constructed with \<open>readsUntilValid = 3\<close> is read three times, and each
  time both lines read low. The first and the second call return false and leave the
  status \<open>init\<close>; the third returns true with the status \<open>valid\<close>, and the smoothed
  reading is the raw reading of that call: the 24 bits it has just shifted in.
\<close>

theorem settling_three_reads:
  fixes pClk pData :: u8 and g :: gain and w0 w1 w2 w3 :: world
  defines "s0 \<equiv> fst (SimpleHX711_new pClk pData 3 g w0)"
  defines "s1 \<equiv> fst (snd (read s0 w1))"
  defines "s2 \<equiv> fst (snd (read s1 w2))"
  defines "s3 \<equiv> fst (snd (read s2 w3))"
  assumes r1: "ready s0 w1" and r2: "ready s1 w2" and r3: "ready s2 w3"
  shows "\<not> fst (read s0 w1) \<and> status s1 = init
       \<and> \<not> fst (read s1 w2) \<and> status s2 = init
       \<and> fst (read s2 w3) \<and> status s3 = valid
       \<and> smoothedRaw s3 = raw s3
       \<and> raw s3 = fst (bytes_loop 3 pClk pData (raw s2, w3\<lparr>nreads := Suc (Suc (nreads w3))\<rparr>))"
proof -
  have i0: "status s0 = init" "readCount s0 = 0" "readsUntilValid s0 = 3" "pinClk s0 = pClk"
    "pinData s0 = pData"
    by (simp_all add: s0_def new_fields)
  have c0: "(if status s0 = timedOut then 0 else readCount s0) < readsUntilValid s0"
    by (simp add: i0)
  have d1: "\<not> fst (read s0 w1)" and i1: "status s1 = init" "readCount s1 = 1"
    using read_settling [OF r1 c0] by (simp_all add: s1_def i0)
  have u1: "readsUntilValid s1 = 3" "pinClk s1 = pClk" "pinData s1 = pData"
    by (simp_all add: s1_def read_frame i0)
  have c1: "(if status s1 = timedOut then 0 else readCount s1) < readsUntilValid s1"
    by (simp add: i1 u1)
  have d2: "\<not> fst (read s1 w2)" and i2: "status s2 = init" "readCount s2 = 2"
    using read_settling [OF r2 c1] by (simp_all add: s2_def i1 u1)
  have u2: "readsUntilValid s2 = 3" "pinClk s2 = pClk" "pinData s2 = pData"
    by (simp_all add: s2_def read_frame u1)
  have c2: "(if status s2 = timedOut then 0 else readCount s2) < readsUntilValid s2"
    by (simp add: i2 u2)
  have d3: "fst (read s2 w3)" and i3: "status s3 = valid" "smoothedRaw s3 = raw s3"
    using read_settling [OF r3 c2] by (simp_all add: s3_def i2 u2)
  have "raw s3 = fst (bytes_loop 3 pClk pData (raw s2, w3\<lparr>nreads := Suc (Suc (nreads w3))\<rparr>))"
    using read_raw(1) [OF r3] by (simp add: s3_def u2)
  then show ?thesis using d1 i1 d2 i2 d3 i3 by simp
qed

theorem settling_three_reads_witness:
  "ready (fresh 3) (quiet 5)
   \<and> ready (polls (fresh 3) [quiet 5]) (quiet 6)
   \<and> ready (polls (fresh 3) [quiet 5, quiet 6]) (sample10 7)
   \<and> \<not> fst (read (fresh 3) (quiet 5))
   \<and> status (polls (fresh 3) [quiet 5]) = init
   \<and> \<not> fst (read (polls (fresh 3) [quiet 5]) (quiet 6))
   \<and> status (polls (fresh 3) [quiet 5, quiet 6]) = init
   \<and> fst (read (polls (fresh 3) [quiet 5, quiet 6]) (sample10 7))
   \<and> status (polls (fresh 3) [quiet 5, quiet 6, sample10 7]) = valid
   \<and> smoothedRaw (polls (fresh 3) [quiet 5, quiet 6, sample10 7]) = 2560
   \<and> raw (polls (fresh 3) [quiet 5, quiet 6, sample10 7]) = 2560"
proof -
  have h1: "ready (fresh 3) (quiet 5)"
    by code_simp
  have h2: "ready (fst (snd (read (fresh 3) (quiet 5)))) (quiet 6)"
    by code_simp
  have h3: "ready (fst (snd (read (fst (snd (read (fresh 3) (quiet 5)))) (quiet 6)))) (sample10 7)"
    by code_simp
  have r: "raw (polls (fresh 3) [quiet 5, quiet 6, sample10 7]) = 2560"
    by code_simp
  note t = settling_three_reads [of 2 3 gain128 "scripted [] [0]" "quiet 5" "quiet 6" "sample10 7",
      folded fresh_def, OF h1 h2 h3]
  show ?thesis using h1 h2 h3 r t by simp
qed

section \<open>After a time-out\<close>

text \<open>
  C2, as the code has it. The specification has the call after a time-out reset the read
  count and the status whatever the lines show. The reset of lines 69 to 72 stands behind
  the two early returns: a chip that is still silent keeps the status \<open>timedOut\<close> and
  the read count, and a clock line that reads high gives the status \<open>poweredDown\<close>.
\<close>

theorem timedOut_stays_counterexample:
  "status stalled = timedOut
   \<and> readCount stalled = 1
   \<and> status (fst (snd (read stalled (busy 800)))) = timedOut
   \<and> readCount (fst (snd (read stalled (busy 800)))) = 1
   \<and> status (fst (snd (read stalled clockHigh))) = poweredDown
   \<and> readCount (fst (snd (read stalled clockHigh))) = 1"
  by code_simp

text \<open>
  C2, amended. In a state with the status \<open>timedOut\<close>, a call that finds both lines low
  behaves as the same call with the status \<open>init\<close> and the read count 0: it counts
  its own transfer as the first settling read. A call that finds the clock line high sets
  the status \<open>poweredDown\<close>, one that finds the data line high leaves it \<open>timedOut\<close>, and
  neither touches the read count.
\<close>

theorem timedOut_recovery:
  assumes t: "status s = timedOut"
  shows "(ready s w \<longrightarrow>
            read s w = read (s\<lparr>status := init, readCount := 0\<rparr>) w
          \<and> readCount (fst (snd (read s w))) = (if readsUntilValid s = 0 then 0 else 1)
          \<and> status (fst (snd (read s w))) = (if 1 < readsUntilValid s then init else valid))
       \<and> (clockAsserted s w \<longrightarrow>
            status (fst (snd (read s w))) = poweredDown
          \<and> readCount (fst (snd (read s w))) = readCount s)
       \<and> (\<not> clockAsserted s w \<and> dataAsserted s w \<longrightarrow>
            status (fst (snd (read s w))) = timedOut
          \<and> readCount (fst (snd (read s w))) = readCount s)"
proof (intro conjI impI)
  assume r: "ready s w"
  let ?s = "s\<lparr>status := init, readCount := 0\<rparr>"
  have r': "ready ?s w" using r by (simp add: ready_def clockAsserted_def dataAsserted_def)
  have "transfer s w' = transfer ?s w'" for w'
    using t by (simp add: transfer_def)
  then show "read s w = read ?s w"
    by (simp add: read_ready [OF r] read_ready [OF r'])
  show "readCount (fst (snd (read s w))) = (if readsUntilValid s = 0 then 0 else 1)"
  proof (cases "readsUntilValid s = 0")
    case True
    then have "\<not> (if status s = timedOut then 0 else readCount s) < readsUntilValid s"
      by simp
    from read_steady(2) [OF r this] show ?thesis using t True by simp
  next
    case False
    then have "(if status s = timedOut then 0 else readCount s) < readsUntilValid s"
      using t by (simp add: word_greater_zero_iff)
    from read_settling(2) [OF r this] show ?thesis using t False by simp
  qed
  show "status (fst (snd (read s w))) = (if 1 < readsUntilValid s then init else valid)"
  proof (cases "readsUntilValid s = 0")
    case True
    then have "\<not> (if status s = timedOut then 0 else readCount s) < readsUntilValid s"
      by simp
    from read_steady(3) [OF r this] show ?thesis using True by simp
  next
    case False
    then have "(if status s = timedOut then 0 else readCount s) < readsUntilValid s"
      using t by (simp add: word_greater_zero_iff)
    from read_settling(3) [OF r this] show ?thesis using t False by (auto simp: one_less_u8)
  qed
next
  assume "clockAsserted s w"
  then show "status (fst (snd (read s w))) = poweredDown"
    "readCount (fst (snd (read s w))) = readCount s"
    by (simp_all add: read_down)
next
  assume "\<not> clockAsserted s w \<and> dataAsserted s w"
  then show "status (fst (snd (read s w))) = timedOut"
    "readCount (fst (snd (read s w))) = readCount s"
    using t by (simp_all add: read_busy)
qed

theorem timedOut_recovery_witness:
  "status stalled = timedOut
   \<and> ready stalled (quiet 900)
   \<and> read stalled (quiet 900) = read (stalled\<lparr>status := init, readCount := 0\<rparr>) (quiet 900)
   \<and> readCount (fst (snd (read stalled (quiet 900)))) = 1
   \<and> status (fst (snd (read stalled (quiet 900)))) = init
   \<and> clockAsserted stalled clockHigh
   \<and> status (fst (snd (read stalled clockHigh))) = poweredDown
   \<and> readCount (fst (snd (read stalled clockHigh))) = readCount stalled
   \<and> \<not> clockAsserted stalled (busy 800)
   \<and> dataAsserted stalled (busy 800)
   \<and> status (fst (snd (read stalled (busy 800)))) = timedOut
   \<and> readCount (fst (snd (read stalled (busy 800)))) = readCount stalled"
proof -
  have t: "status stalled = timedOut"
    by code_simp
  have u: "readsUntilValid stalled = 3"
    by code_simp
  have h1: "ready stalled (quiet 900)"
    by code_simp
  have h2: "clockAsserted stalled clockHigh"
    by code_simp
  have h3: "\<not> clockAsserted stalled (busy 800)" "dataAsserted stalled (busy 800)"
    by code_simp+
  note a = timedOut_recovery [OF t, of "quiet 900", THEN conjunct1, THEN mp, OF h1]
  note b = timedOut_recovery [OF t, of clockHigh, THEN conjunct2, THEN conjunct1, THEN mp, OF h2]
  note c = timedOut_recovery [OF t, of "busy 800", THEN conjunct2, THEN conjunct2, THEN mp,
      OF conjI, OF h3]
  have a2: "readCount (fst (snd (read stalled (quiet 900)))) = 1"
    using a [THEN conjunct2, THEN conjunct1] u by simp
  have a3: "status (fst (snd (read stalled (quiet 900)))) = init"
    using a [THEN conjunct2, THEN conjunct2] u by simp
  show ?thesis
    using t h1 h2 h3 a [THEN conjunct1] a2 a3 b c by blast
qed

section \<open>Smoothing\<close>

text \<open>
  C3. In the steady state (the read count has reached \<open>readsUntilValid\<close>) a call that
  finds both lines low returns true and sets
  \<open>smoothed = smoothed + ((raw - smoothed) / 256) * alpha\<close>, where \<open>raw\<close> is the reading
  of this call: the quotient is truncated towards zero before it is multiplied. Read as
  integers, the equation holds whenever \<open>raw - smoothed\<close> is a value of \<open>int32_t\<close>; the
  product and the sum then are too. With \<open>raw = 2560\<close>, \<open>smoothed = 0\<close> and
  \<open>alpha = 200\<close> the new smoothed value is 2000, and a difference of less than 256
  either way changes nothing.
\<close>

theorem smoothing_update:
  assumes r: "ready s w" and t: "status s \<noteq> timedOut" and c: "readsUntilValid s \<le> readCount s"
  shows "fst (read s w)
       \<and> status (fst (snd (read s w))) = valid
       \<and> smoothedRaw (fst (snd (read s w))) =
           smoothedRaw s
           + sdiv_i32 (raw (fst (snd (read s w))) - smoothedRaw s) 256 * ucast (alpha s)
       \<and> (fits_i32 (sint (raw (fst (snd (read s w)))) - sint (smoothedRaw s)) \<longrightarrow>
            sint (smoothedRaw (fst (snd (read s w)))) =
              sint (smoothedRaw s)
              + ((sint (raw (fst (snd (read s w)))) - sint (smoothedRaw s)) sdiv 256)
                * uint (alpha s))
       \<and> (raw (fst (snd (read s w))) = 2560 \<and> smoothedRaw s = 0 \<and> alpha s = 200 \<longrightarrow>
            smoothedRaw (fst (snd (read s w))) = 2000)
       \<and> (- 256 < sint (raw (fst (snd (read s w)))) - sint (smoothedRaw s)
          \<and> sint (raw (fst (snd (read s w)))) - sint (smoothedRaw s) < 256 \<longrightarrow>
            smoothedRaw (fst (snd (read s w))) = smoothedRaw s)"
proof -
  let ?s = "fst (snd (read s w))"
  have c': "\<not> (if status s = timedOut then 0 else readCount s) < readsUntilValid s"
    using t c by simp
  note st = read_steady [OF r c']
  have eq: "smoothedRaw ?s =
      smoothedRaw s + sdiv_i32 (raw ?s - smoothedRaw s) 256 * ucast (alpha s)"
    by (rule st(4))
  have int: "sint (smoothedRaw ?s) =
      sint (smoothedRaw s) + ((sint (raw ?s) - sint (smoothedRaw s)) sdiv 256) * uint (alpha s)"
    if "fits_i32 (sint (raw ?s) - sint (smoothedRaw s))"
    using smoothing_in_range [OF that] eq by simp
  have ex: "smoothedRaw ?s = 2000"
    if "raw ?s = 2560 \<and> smoothedRaw s = 0 \<and> alpha s = 200"
  proof -
    have "sdiv_i32 2560 256 * ucast (200 :: u8) = (2000 :: i32)"
      by (simp add: sdiv_i32_def signed_divide_int_def)
    then show ?thesis using eq that by simp
  qed
  have small: "smoothedRaw ?s = smoothedRaw s"
    if "- 256 < sint (raw ?s) - sint (smoothedRaw s)
      \<and> sint (raw ?s) - sint (smoothedRaw s) < 256"
  proof -
    have "fits_i32 (sint (raw ?s) - sint (smoothedRaw s))"
      using that unfolding fits_i32_iff by linarith
    from int [OF this] have "sint (smoothedRaw ?s) = sint (smoothedRaw s)"
      using that by (simp add: sdiv_small)
    then show ?thesis by (rule sint_eq_imp_eq)
  qed
  show ?thesis using st(1) st(3) eq int ex small by blast
qed

theorem smoothing_update_witness:
  "ready settled (sample10 4)
   \<and> status settled \<noteq> timedOut
   \<and> readsUntilValid settled \<le> readCount settled
   \<and> raw (fst (snd (read settled (sample10 4)))) = 2560
   \<and> smoothedRaw settled = 0
   \<and> alpha settled = 200
   \<and> fst (read settled (sample10 4))
   \<and> status (fst (snd (read settled (sample10 4)))) = valid
   \<and> smoothedRaw (fst (snd (read settled (sample10 4)))) = 2000"
proof -
  have h: "ready settled (sample10 4)" "status settled \<noteq> timedOut"
    "readsUntilValid settled \<le> readCount settled"
    by (simp_all add: ready_scripted sample10_def settled_eq)
  have v: "raw (fst (snd (read settled (sample10 4)))) = 2560" "smoothedRaw settled = 0"
    "alpha settled = 200"
    by (simp_all add: read_settled_sample10(2)) (simp_all add: settled_eq)
  note a = smoothing_update [OF h, THEN conjunct2, THEN conjunct2, THEN conjunct2,
      THEN conjunct2, THEN conjunct1, THEN mp, OF conjI, OF v(1) conjI, OF v(2) v(3)]
  show ?thesis using h v a smoothing_update [OF h] by blast
qed

text \<open>
  C10. With \<open>readsUntilValid = 0\<close> a call that finds both lines low returns true with
  the status \<open>valid\<close>, leaves the read count where the transfer put it, and updates
  the smoothed reading by the smoothing rule from its previous value: the first such call
  after construction, on the sample 2560, gives the smoothed reading 2000.
\<close>

theorem zero_threshold_smooths:
  assumes z: "readsUntilValid s = 0" and r: "ready s w"
  shows "fst (read s w)
       \<and> status (fst (snd (read s w))) = valid
       \<and> readCount (fst (snd (read s w))) = (if status s = timedOut then 0 else readCount s)
       \<and> smoothedRaw (fst (snd (read s w))) =
           smoothedRaw s
           + sdiv_i32 (raw (fst (snd (read s w))) - smoothedRaw s) 256 * ucast (alpha s)"
proof -
  have c: "\<not> (if status s = timedOut then 0 else readCount s) < readsUntilValid s"
    using z by simp
  show ?thesis using read_steady [OF r c] by blast
qed

theorem zero_threshold_smooths_witness:
  "readsUntilValid (fresh 0) = 0
   \<and> ready (fresh 0) (sample10 4)
   \<and> fst (read (fresh 0) (sample10 4))
   \<and> status (fst (snd (read (fresh 0) (sample10 4)))) = valid
   \<and> readCount (fst (snd (read (fresh 0) (sample10 4)))) = 0
   \<and> raw (fst (snd (read (fresh 0) (sample10 4)))) = 2560
   \<and> smoothedRaw (fst (snd (read (fresh 0) (sample10 4)))) = 2000"
proof -
  have h: "readsUntilValid (fresh 0) = 0" "ready (fresh 0) (sample10 4)"
    by (simp_all add: ready_scripted sample10_def fresh_eq)
  have v: "raw (fst (snd (read (fresh 0) (sample10 4)))) = 2560"
    "smoothedRaw (fst (snd (read (fresh 0) (sample10 4)))) = 2000"
    "readCount (fst (snd (read (fresh 0) (sample10 4)))) = 0"
    by (simp_all add: read_fresh0_sample10(2)) (simp_all add: fresh_eq)
  show ?thesis using h v zero_threshold_smooths [OF h] by blast
qed

section \<open>Calibration\<close>

text \<open>
  C7, as the code has it. The specification has \<open>adjustTo\<close> set the adjuster to
  \<open>(reading - tare) / target\<close> for every target other than 0. After a read of the least
  sample the raw reading is the least value of \<open>int32_t\<close>, and with the target -1 the
  quotient is no value of \<open>int32_t\<close>: the division has no result. Only the target 0 is
  tested for.
\<close>

theorem adjustTo_overflow_counterexample:
  "(- 1 :: i32) \<noteq> 0
   \<and> status minraw = valid
   \<and> sint (raw minraw) - sint (tare minraw) = - 2147483648
   \<and> adjustTo minraw (- 1) False = None"
  by (simp add: minraw_eq adjustTo_def div_i32_def)

text \<open>
  C7, amended. \<open>adjustTo\<close> with the target 0 has a result, whatever the flag, and the
  adjuster is then \<open>reading - tare\<close> (\<open>raw - tare\<close> for \<open>adjustTo(0, false)\<close>): the target
  0 is replaced by 1 before the division. For a target other than 0 the adjuster becomes
  \<open>(reading - tare) / target\<close>, truncated towards zero, the reading being the raw or the
  smoothed one as the flag says, unless \<open>reading - tare\<close> is the least value of
  \<open>int32_t\<close> and the target is -1: then the call has no result. The difference is that
  of the integers whenever that is a value of \<open>int32_t\<close>.
\<close>

theorem adjustTo_divides:
  "adjustTo s 0 smoothed = Some (s\<lparr>adjuster := getRaw s smoothed - tare s\<rparr>)
   \<and> adjustTo s 0 False = Some (s\<lparr>adjuster := raw s - tare s\<rparr>)
   \<and> (v \<noteq> 0 \<and> \<not> (sint (getRaw s smoothed - tare s) = - (2 ^ 31) \<and> sint v = - 1) \<longrightarrow>
        adjustTo s v smoothed =
          Some (s\<lparr>adjuster := sdiv_i32 (getRaw s smoothed - tare s) v\<rparr>)
        \<and> sint (sdiv_i32 (getRaw s smoothed - tare s) v) =
            sint (getRaw s smoothed - tare s) sdiv sint v)
   \<and> (sint (getRaw s smoothed - tare s) = - (2 ^ 31) \<and> sint v = - 1 \<longrightarrow>
        adjustTo s v smoothed = None)
   \<and> (fits_i32 (sint (getRaw s smoothed) - sint (tare s)) \<longrightarrow>
        sint (getRaw s smoothed - tare s) = sint (getRaw s smoothed) - sint (tare s))"
proof (intro conjI impI)
  have one: "div_i32 x 1 = Some x" for x
    by (simp add: div_i32_def sdiv_i32_one)
  show "adjustTo s 0 smoothed = Some (s\<lparr>adjuster := getRaw s smoothed - tare s\<rparr>)"
    by (simp add: adjustTo_getRaw one)
  show "adjustTo s 0 False = Some (s\<lparr>adjuster := raw s - tare s\<rparr>)"
    by (simp add: adjustTo_getRaw one getRaw_def)
  show "sint (getRaw s smoothed - tare s) = sint (getRaw s smoothed) - sint (tare s)"
    if "fits_i32 (sint (getRaw s smoothed) - sint (tare s))"
    using that by (rule sint_sub_i32)
  show "adjustTo s v smoothed = None"
    if a: "sint (getRaw s smoothed - tare s) = - (2 ^ 31) \<and> sint v = - 1"
  proof -
    have "v \<noteq> 0" using a by auto
    then show ?thesis using div_i32_overflow [OF a] by (simp add: adjustTo_getRaw)
  qed
  assume a: "v \<noteq> 0 \<and> \<not> (sint (getRaw s smoothed - tare s) = - (2 ^ 31) \<and> sint v = - 1)"
  then have "div_i32 (getRaw s smoothed - tare s) v = Some (sdiv_i32 (getRaw s smoothed - tare s) v)"
    by (intro div_i32_Some) simp_all
  then show "adjustTo s v smoothed =
      Some (s\<lparr>adjuster := sdiv_i32 (getRaw s smoothed - tare s) v\<rparr>)"
    using a by (simp add: adjustTo_getRaw)
  show "sint (sdiv_i32 (getRaw s smoothed - tare s) v) =
      sint (getRaw s smoothed - tare s) sdiv sint v"
    using a by (intro sint_sdiv_i32) simp
qed

theorem adjustTo_divides_witness:
  "adjustTo loaded 0 True = Some (loaded\<lparr>adjuster := 2000\<rparr>)
   \<and> adjustTo loaded 0 False = Some (loaded\<lparr>adjuster := 2560\<rparr>)
   \<and> (- 3 :: i32) \<noteq> 0
   \<and> \<not> (sint (getRaw loaded False - tare loaded) = - (2 ^ 31) \<and> sint (- 3 :: i32) = - 1)
   \<and> adjustTo loaded (- 3) False = Some (loaded\<lparr>adjuster := - 853\<rparr>)
   \<and> sint (getRaw minraw False - tare minraw) = - (2 ^ 31)
   \<and> sint (- 1 :: i32) = - 1
   \<and> adjustTo minraw (- 1) False = None
   \<and> fits_i32 (sint (getRaw loaded False) - sint (tare loaded))
   \<and> sint (getRaw loaded False - tare loaded) = 2560"
proof -
  have v: "(- 3 :: i32) \<noteq> 0" by simp
  have g: "getRaw loaded False - tare loaded = 2560" "getRaw loaded True - tare loaded = 2000"
    by (simp_all add: loaded_eq getRaw_def)
  have o: "\<not> (sint (getRaw loaded False - tare loaded) = - (2 ^ 31) \<and> sint (- 3 :: i32) = - 1)"
    unfolding g by simp
  have m: "sint (getRaw minraw False - tare minraw) = - (2 ^ 31)" "sint (- 1 :: i32) = - 1"
    by (simp_all add: minraw_eq getRaw_def)
  have f: "fits_i32 (sint (getRaw loaded False) - sint (tare loaded))"
    by (simp add: loaded_eq getRaw_def fits_i32_def)
  have q: "sdiv_i32 2560 (- 3) = - 853"
    by (simp add: sdiv_i32_def signed_divide_int_def)
  note a = adjustTo_divides [of loaded True "- 3"]
  note b = adjustTo_divides [of loaded False "- 3"]
  note c = adjustTo_divides [of minraw False "- 1"]
  have 1: "adjustTo loaded 0 True = Some (loaded\<lparr>adjuster := 2000\<rparr>)"
    using a [THEN conjunct1] unfolding g .
  have 2: "adjustTo loaded 0 False = Some (loaded\<lparr>adjuster := 2560\<rparr>)"
    using b [THEN conjunct1] unfolding g .
  have 3: "adjustTo loaded (- 3) False = Some (loaded\<lparr>adjuster := - 853\<rparr>)"
    using b [THEN conjunct2, THEN conjunct2, THEN conjunct1, THEN mp, OF conjI, OF v o,
        THEN conjunct1]
    unfolding g q .
  have 4: "adjustTo minraw (- 1) False = None"
    using c [THEN conjunct2, THEN conjunct2, THEN conjunct2, THEN conjunct1, THEN mp,
        OF conjI, OF m] .
  have 5: "sint (getRaw loaded False - tare loaded) = 2560"
    using b [THEN conjunct2, THEN conjunct2, THEN conjunct2, THEN conjunct2, THEN mp, OF f]
    by (simp add: loaded_eq getRaw_def)
  show ?thesis using v o m f 1 2 3 4 5 by blast
qed

text \<open>
  C8, as the code has it. The specification gives \<open>getAdjusted\<close> the one precondition
  that the adjuster is not 0. With the adjuster -1 and \<open>reading - tare\<close> the least value
  of \<open>int32_t\<close> the division has no result either.
\<close>

theorem getAdjusted_overflow_counterexample:
  "adjuster (setAdjuster minraw (- 1)) \<noteq> 0
   \<and> sint (raw (setAdjuster minraw (- 1))) - sint (tare (setAdjuster minraw (- 1)))
       = - 2147483648
   \<and> getAdjusted (setAdjuster minraw (- 1)) False = None"
  by (simp add: minraw_eq setAdjuster_def getAdjusted_def div_i32_def)

text \<open>
  C8, amended. \<open>getAdjusted\<close> divides without a test. With an adjuster other than 0 it
  returns \<open>(reading - tare) / adjuster\<close>, truncated towards zero, unless
  \<open>reading - tare\<close> is the least value of \<open>int32_t\<close> and the adjuster is -1; in that
  case, and with the adjuster 0, the call has no result. The difference is that of the
  integers whenever that is a value of \<open>int32_t\<close>.
\<close>

theorem getAdjusted_unguarded:
  "(adjuster s \<noteq> 0
      \<and> \<not> (sint (getRaw s smoothed - tare s) = - (2 ^ 31) \<and> sint (adjuster s) = - 1) \<longrightarrow>
        getAdjusted s smoothed = Some (sdiv_i32 (getRaw s smoothed - tare s) (adjuster s))
        \<and> sint (sdiv_i32 (getRaw s smoothed - tare s) (adjuster s)) =
            sint (getRaw s smoothed - tare s) sdiv sint (adjuster s))
   \<and> (adjuster s = 0 \<longrightarrow> getAdjusted s smoothed = None)
   \<and> (sint (getRaw s smoothed - tare s) = - (2 ^ 31) \<and> sint (adjuster s) = - 1 \<longrightarrow>
        getAdjusted s smoothed = None)
   \<and> (fits_i32 (sint (getRaw s smoothed) - sint (tare s)) \<longrightarrow>
        sint (getRaw s smoothed - tare s) = sint (getRaw s smoothed) - sint (tare s))"
proof (intro conjI impI)
  show "getAdjusted s smoothed = None" if "adjuster s = 0"
    using that by (simp add: getAdjusted_getRaw div_i32_def)
  show "getAdjusted s smoothed = None"
    if "sint (getRaw s smoothed - tare s) = - (2 ^ 31) \<and> sint (adjuster s) = - 1"
    using div_i32_overflow [OF that] by (simp add: getAdjusted_getRaw)
  show "sint (getRaw s smoothed - tare s) = sint (getRaw s smoothed) - sint (tare s)"
    if "fits_i32 (sint (getRaw s smoothed) - sint (tare s))"
    using that by (rule sint_sub_i32)
  assume a: "adjuster s \<noteq> 0
      \<and> \<not> (sint (getRaw s smoothed - tare s) = - (2 ^ 31) \<and> sint (adjuster s) = - 1)"
  then show "getAdjusted s smoothed = Some (sdiv_i32 (getRaw s smoothed - tare s) (adjuster s))"
    unfolding getAdjusted_getRaw by (intro div_i32_Some) simp_all
  show "sint (sdiv_i32 (getRaw s smoothed - tare s) (adjuster s)) =
      sint (getRaw s smoothed - tare s) sdiv sint (adjuster s)"
    using a by (intro sint_sdiv_i32) simp
qed

theorem getAdjusted_unguarded_witness:
  "adjuster loaded \<noteq> 0
   \<and> \<not> (sint (getRaw loaded False - tare loaded) = - (2 ^ 31) \<and> sint (adjuster loaded) = - 1)
   \<and> getAdjusted loaded False = Some 10
   \<and> getAdjusted (setAdjuster loaded (- 3)) False = Some (- 853)
   \<and> adjuster (setAdjuster loaded 0) = 0
   \<and> getAdjusted (setAdjuster loaded 0) False = None
   \<and> sint (getRaw (setAdjuster minraw (- 1)) False - tare (setAdjuster minraw (- 1)))
       = - (2 ^ 31)
   \<and> sint (adjuster (setAdjuster minraw (- 1))) = - 1
   \<and> getAdjusted (setAdjuster minraw (- 1)) False = None
   \<and> fits_i32 (sint (getRaw loaded False) - sint (tare loaded))
   \<and> sint (getRaw loaded False - tare loaded) = 2560"
proof -
  have v: "adjuster loaded \<noteq> 0" by (simp add: loaded_eq)
  have g: "getRaw loaded False - tare loaded = 2560" "adjuster loaded = 256"
    by (simp_all add: loaded_eq getRaw_def)
  have o: "\<not> (sint (getRaw loaded False - tare loaded) = - (2 ^ 31)
      \<and> sint (adjuster loaded) = - 1)"
    unfolding g by simp
  have g3: "getRaw (setAdjuster loaded (- 3)) False - tare (setAdjuster loaded (- 3)) = 2560"
    "adjuster (setAdjuster loaded (- 3)) = - 3"
    by (simp_all add: loaded_eq getRaw_def setAdjuster_def)
  have v3: "adjuster (setAdjuster loaded (- 3)) \<noteq> 0" unfolding g3 by simp
  have o3: "\<not> (sint (getRaw (setAdjuster loaded (- 3)) False - tare (setAdjuster loaded (- 3)))
        = - (2 ^ 31) \<and> sint (adjuster (setAdjuster loaded (- 3))) = - 1)"
    unfolding g3 by simp
  have z: "adjuster (setAdjuster loaded 0) = 0" by (simp add: setAdjuster_def)
  have m: "sint (getRaw (setAdjuster minraw (- 1)) False - tare (setAdjuster minraw (- 1)))
       = - (2 ^ 31)" "sint (adjuster (setAdjuster minraw (- 1))) = - 1"
    by (simp_all add: minraw_eq getRaw_def setAdjuster_def)
  have f: "fits_i32 (sint (getRaw loaded False) - sint (tare loaded))"
    by (simp add: loaded_eq getRaw_def fits_i32_def)
  have q: "sdiv_i32 2560 256 = 10" "sdiv_i32 2560 (- 3) = - 853"
    by (simp_all add: sdiv_i32_def signed_divide_int_def)
  note a = getAdjusted_unguarded [of loaded False]
  have 1: "getAdjusted loaded False = Some 10"
    using a [THEN conjunct1, THEN mp, OF conjI, OF v o, THEN conjunct1] unfolding g q .
  have 2: "getAdjusted (setAdjuster loaded (- 3)) False = Some (- 853)"
    using getAdjusted_unguarded [of "setAdjuster loaded (- 3)" False, THEN conjunct1, THEN mp,
        OF conjI, OF v3 o3, THEN conjunct1]
    unfolding g3 q .
  have 3: "getAdjusted (setAdjuster loaded 0) False = None"
    using getAdjusted_unguarded [of "setAdjuster loaded 0" False, THEN conjunct2,
        THEN conjunct1, THEN mp, OF z] .
  have 4: "getAdjusted (setAdjuster minraw (- 1)) False = None"
    using getAdjusted_unguarded [of "setAdjuster minraw (- 1)" False, THEN conjunct2,
        THEN conjunct2, THEN conjunct1, THEN mp, OF conjI, OF m] .
  have 5: "sint (getRaw loaded False - tare loaded) = 2560"
    using a [THEN conjunct2, THEN conjunct2, THEN conjunct2, THEN mp, OF f]
    by (simp add: loaded_eq getRaw_def)
  show ?thesis using v o z m f 1 2 3 4 5 by blast
qed

text \<open>
  C9. The constructor leaves tare 0, alpha 200, adjuster 256, and the raw reading, the
  smoothed reading and the time stamp 0. As long as none of \<open>tare\<close>, \<open>setTare\<close>,
  \<open>adjustTo\<close> and \<open>setAdjuster\<close> has been called, whatever else has, the tare is 0 and
  the adjuster 256, so \<open>getAdjusted(false)\<close> returns the raw reading divided by 256,
  truncated towards zero.
\<close>

theorem constructed_calibration:
  "tare (fst (SimpleHX711_new pClk pData rUV g w)) = 0
   \<and> alpha (fst (SimpleHX711_new pClk pData rUV g w)) = 200
   \<and> adjuster (fst (SimpleHX711_new pClk pData rUV g w)) = 256
   \<and> raw (fst (SimpleHX711_new pClk pData rUV g w)) = 0
   \<and> smoothedRaw (fst (SimpleHX711_new pClk pData rUV g w)) = 0
   \<and> timestamp (fst (SimpleHX711_new pClk pData rUV g w)) = 0
   \<and> getAdjusted (fst (SimpleHX711_new pClk pData rUV g w)) False = Some 0
   \<and> (list_all (\<lambda>x. \<not> calibrates (fst x)) steps
        \<and> run steps (fst (SimpleHX711_new pClk pData rUV g w)) = Some s \<longrightarrow>
        tare s = 0 \<and> adjuster s = 256
        \<and> getAdjusted s False = Some (sdiv_i32 (raw s) 256)
        \<and> map_option sint (getAdjusted s False) = Some (sint (raw s) sdiv 256))"
proof -
  let ?s = "fst (SimpleHX711_new pClk pData rUV g w)"
  have z: "sdiv_i32 0 256 = 0" by (simp add: sdiv_i32_def)
  have imp: "tare s = 0 \<and> adjuster s = 256
        \<and> getAdjusted s False = Some (sdiv_i32 (raw s) 256)
        \<and> map_option sint (getAdjusted s False) = Some (sint (raw s) sdiv 256)"
    if a: "list_all (\<lambda>x. \<not> calibrates (fst x)) steps \<and> run steps ?s = Some s"
  proof -
    from a run_calibration [of steps ?s s] have f: "tare s = 0" "adjuster s = 256"
      by (simp_all add: new_fields)
    have "sint (256 :: i32) = 256" by simp
    then have "sint (sdiv_i32 (raw s) 256) = sint (raw s) sdiv 256"
      using sint_sdiv_i32 [of "raw s" 256] by simp
    then show ?thesis by (simp add: getAdjusted_def div_i32_def f)
  qed
  have base: "tare ?s = 0 \<and> alpha ?s = 200 \<and> adjuster ?s = 256 \<and> raw ?s = 0
      \<and> smoothedRaw ?s = 0 \<and> timestamp ?s = 0 \<and> getAdjusted ?s False = Some 0"
    by (simp add: new_fields getAdjusted_def div_i32_def z)
  show ?thesis using base imp by blast
qed

theorem constructed_calibration_witness:
  "tare (fresh 3) = 0 \<and> alpha (fresh 3) = 200 \<and> adjuster (fresh 3) = 256
   \<and> raw (fresh 3) = 0 \<and> smoothedRaw (fresh 3) = 0 \<and> timestamp (fresh 3) = 0
   \<and> list_all (\<lambda>x. \<not> calibrates (fst x))
        [(Read, quiet 1), (SetGain gain64, quiet 1), (PowerUp, quiet 2), (Read, sample10 3)]
   \<and> run [(Read, quiet 1), (SetGain gain64, quiet 1), (PowerUp, quiet 2), (Read, sample10 3)]
        (fresh 3)
      = Some \<lparr>pinClk = 2, pinData = 3, gain = gain64, tare = 0, alpha = 200,
          timestamp = 2, raw = 2560, smoothedRaw = 0, adjuster = 256, conversionStartTime = 3,
          status = init, readCount = 1, readsUntilValid = 3\<rparr>
   \<and> getAdjusted \<lparr>pinClk = 2, pinData = 3, gain = gain64, tare = 0, alpha = 200,
          timestamp = 2, raw = 2560, smoothedRaw = 0, adjuster = 256, conversionStartTime = 3,
          status = init, readCount = 1, readsUntilValid = 3\<rparr> False = Some 10"
proof -
  have l: "list_all (\<lambda>x. \<not> calibrates (fst x))
        [(Read, quiet 1), (SetGain gain64, quiet 1), (PowerUp, quiet 2), (Read, sample10 3)]"
    by simp
  have r: "run [(Read, quiet 1), (SetGain gain64, quiet 1), (PowerUp, quiet 2), (Read, sample10 3)]
        (fresh 3)
      = Some \<lparr>pinClk = 2, pinData = 3, gain = gain64, tare = 0, alpha = 200,
          timestamp = 2, raw = 2560, smoothedRaw = 0, adjuster = 256, conversionStartTime = 3,
          status = init, readCount = 1, readsUntilValid = 3\<rparr>"
    by code_simp
  note a = constructed_calibration [of 2 3 3 gain128 "scripted [] [0]", folded fresh_def]
  note b = a [THEN conjunct2, THEN conjunct2, THEN conjunct2, THEN conjunct2, THEN conjunct2,
      THEN conjunct2, THEN conjunct2, THEN mp, OF conjI, OF l r]
  have q: "sdiv_i32 2560 256 = 10"
    by (simp add: sdiv_i32_def signed_divide_int_def)
  have g: "getAdjusted \<lparr>pinClk = 2, pinData = 3, gain = gain64, tare = 0, alpha = 200,
          timestamp = 2, raw = 2560, smoothedRaw = 0, adjuster = 256, conversionStartTime = 3,
          status = init, readCount = 1, readsUntilValid = 3\<rparr> False = Some 10"
    using b [THEN conjunct2, THEN conjunct2, THEN conjunct1] q by simp
  show ?thesis using l r g a by blast
qed

section \<open>The read count and its threshold\<close>

text \<open>
  C5, as the code has it. The specification bounds the read count by \<open>readsUntilValid\<close>
  in every reachable state, calls of \<open>setReadsUntilValid\<close> included. That member stores
  the new threshold and leaves the read count: after three good reads, the threshold 1
  stands below the read count 3.
\<close>

theorem readCount_exceeds_counterexample:
  "run [(Read, quiet 1), (Read, quiet 2), (Read, quiet 3), (SetReadsUntilValid 1, quiet 3)]
     (fresh 3) = Some (settled\<lparr>readsUntilValid := 1\<rparr>)
   \<and> readCount (settled\<lparr>readsUntilValid := 1\<rparr>) = 3
   \<and> readsUntilValid (settled\<lparr>readsUntilValid := 1\<rparr>) = 1
   \<and> readsUntilValid (settled\<lparr>readsUntilValid := 1\<rparr>) < readCount (settled\<lparr>readsUntilValid := 1\<rparr>)"
proof -
  have "run [(Read, quiet 1), (Read, quiet 2), (Read, quiet 3), (SetReadsUntilValid 1, quiet 3)]
     (fresh 3) = Some (settled\<lparr>readsUntilValid := 1\<rparr>)"
    by (simp add: settled_def setReadsUntilValid_def)
  then show ?thesis by (simp add: settled_eq)
qed

text \<open>
  C5, amended. \<open>setReadsUntilValid\<close> stores the new threshold and leaves the read count
  and every other member as they are. From construction on, through any sequence of calls
  of the public members, the read count exceeds \<open>readsUntilValid\<close> exactly when the last
  call that set the threshold or put the read count back to 0 (\<open>setReadsUntilValid\<close>,
  \<open>setGain\<close>, \<open>powerUp\<close>, a \<open>read\<close> that finds both lines low after a time-out) was
  a \<open>setReadsUntilValid\<close> that set the threshold below the read count of the moment. So
  in a sequence with no such call the read count never exceeds \<open>readsUntilValid\<close>.
\<close>

theorem readCount_bounded:
  "setReadsUntilValid s' n = s'\<lparr>readsUntilValid := n\<rparr>
   \<and> readCount (setReadsUntilValid s' n) = readCount s'
   \<and> readsUntilValid (setReadsUntilValid s' n) = n
   \<and> (run steps (fst (SimpleHX711_new pClk pData rUV g w)) = Some s \<longrightarrow>
        (readsUntilValid s < readCount s)
          = lowered steps (fst (SimpleHX711_new pClk pData rUV g w)) False)
   \<and> (neverLowers steps (fst (SimpleHX711_new pClk pData rUV g w))
        \<and> run steps (fst (SimpleHX711_new pClk pData rUV g w)) = Some s \<longrightarrow>
        readCount s \<le> readsUntilValid s)"
proof (intro conjI impI)
  let ?s = "fst (SimpleHX711_new pClk pData rUV g w)"
  show "setReadsUntilValid s' n = s'\<lparr>readsUntilValid := n\<rparr>"
    "readCount (setReadsUntilValid s' n) = readCount s'"
    "readsUntilValid (setReadsUntilValid s' n) = n"
    by (simp_all add: setReadsUntilValid_def)
  have z: "False = (readsUntilValid ?s < readCount ?s)"
    by (simp add: new_fields)
  show "(readsUntilValid s < readCount s) = lowered steps ?s False"
    if "run steps ?s = Some s"
    by (rule run_exceeds [OF z that])
  have b: "readCount ?s \<le> readsUntilValid ?s"
    by (simp add: new_fields)
  show "readCount s \<le> readsUntilValid s"
    if "neverLowers steps ?s \<and> run steps ?s = Some s"
    using run_bounded [OF b] that by blast
qed

theorem readCount_bounded_witness:
  "setReadsUntilValid settled 1 = settled\<lparr>readsUntilValid := 1\<rparr>
   \<and> readCount (setReadsUntilValid settled 1) = 3
   \<and> run [(Read, quiet 1), (Read, quiet 2), (Read, quiet 3), (SetReadsUntilValid 1, quiet 3),
          (SetGain gain64, quiet 3)] (fresh 3)
       = Some (settled\<lparr>readsUntilValid := 1, gain := gain64, status := init, readCount := 0\<rparr>)
   \<and> \<not> lowered [(Read, quiet 1), (Read, quiet 2), (Read, quiet 3), (SetReadsUntilValid 1, quiet 3),
          (SetGain gain64, quiet 3)] (fresh 3) False
   \<and> \<not> readsUntilValid (settled\<lparr>readsUntilValid := 1, gain := gain64, status := init,
           readCount := 0\<rparr>)
         < readCount (settled\<lparr>readsUntilValid := 1, gain := gain64, status := init,
           readCount := 0\<rparr>)
   \<and> neverLowers [(Read, quiet 1), (SetReadsUntilValid 5, quiet 1), (Read, quiet 2),
          (SetGain gain64, quiet 2), (Read, quiet 3), (SetReadsUntilValid 1, quiet 3)] (fresh 3)
   \<and> run [(Read, quiet 1), (SetReadsUntilValid 5, quiet 1), (Read, quiet 2),
          (SetGain gain64, quiet 2), (Read, quiet 3), (SetReadsUntilValid 1, quiet 3)] (fresh 3)
       = Some \<lparr>pinClk = 2, pinData = 3, gain = gain64, tare = 0, alpha = 200,
           timestamp = 2, raw = 0, smoothedRaw = 0, adjuster = 256, conversionStartTime = 3,
           status = init, readCount = 1, readsUntilValid = 1\<rparr>
   \<and> readCount \<lparr>pinClk = 2, pinData = 3, gain = gain64, tare = 0, alpha = 200,
           timestamp = 2, raw = 0, smoothedRaw = 0, adjuster = 256, conversionStartTime = 3,
           status = init, readCount = 1, readsUntilValid = 1\<rparr>
       \<le> readsUntilValid \<lparr>pinClk = 2, pinData = 3, gain = gain64, tare = 0, alpha = 200,
           timestamp = 2, raw = 0, smoothedRaw = 0, adjuster = 256, conversionStartTime = 3,
           status = init, readCount = 1, readsUntilValid = 1\<rparr>"
proof -
  have r1: "run [(Read, quiet 1), (Read, quiet 2), (Read, quiet 3), (SetReadsUntilValid 1, quiet 3),
          (SetGain gain64, quiet 3)] (fresh 3)
       = Some (settled\<lparr>readsUntilValid := 1, gain := gain64, status := init, readCount := 0\<rparr>)"
    by (simp add: settled_def setReadsUntilValid_def setGain_def)
  have l1: "\<not> lowered [(Read, quiet 1), (Read, quiet 2), (Read, quiet 3),
          (SetReadsUntilValid 1, quiet 3), (SetGain gain64, quiet 3)] (fresh 3) False"
    by code_simp
  have n: "neverLowers [(Read, quiet 1), (SetReadsUntilValid 5, quiet 1), (Read, quiet 2),
       (SetGain gain64, quiet 2), (Read, quiet 3), (SetReadsUntilValid 1, quiet 3)] (fresh 3)"
    by code_simp
  have r2: "run [(Read, quiet 1), (SetReadsUntilValid 5, quiet 1), (Read, quiet 2),
       (SetGain gain64, quiet 2), (Read, quiet 3), (SetReadsUntilValid 1, quiet 3)] (fresh 3)
     = Some \<lparr>pinClk = 2, pinData = 3, gain = gain64, tare = 0, alpha = 200,
         timestamp = 2, raw = 0, smoothedRaw = 0, adjuster = 256, conversionStartTime = 3,
         status = init, readCount = 1, readsUntilValid = 1\<rparr>"
    by code_simp
  note a = readCount_bounded [of settled 1 _ 2 3 3 gain128 "scripted [] [0]", folded fresh_def]
  have c: "readCount (setReadsUntilValid settled 1) = 3"
    using a [THEN conjunct2, THEN conjunct1] by (simp add: settled_eq)
  note a4 = a [THEN conjunct2, THEN conjunct2, THEN conjunct2, THEN conjunct1, THEN mp, OF r1]
  note a5 = a [THEN conjunct2, THEN conjunct2, THEN conjunct2, THEN conjunct2, THEN mp,
      OF conjI, OF n r2]
  show ?thesis using a [THEN conjunct1] c r1 l1 a4 n r2 a5 by blast
qed

section \<open>A change of gain\<close>

text \<open>
  C6. \<open>setGain\<close> stores the gain, sets the status \<open>init\<close> and the read count 0, and
  changes nothing else. In the calls of \<open>read\<close> that follow, whatever the lines show,
  the status is not \<open>valid\<close> as long as fewer than \<open>readsUntilValid\<close> of them have gone
  on to the transfer; and when \<open>readsUntilValid\<close> calls in a row do (one call, when
  \<open>readsUntilValid\<close> is 0), the last of them sets it \<open>valid\<close>.
\<close>

theorem setGain_resettles:
  "setGain s g = s\<lparr>gain := g, status := init, readCount := 0\<rparr>
   \<and> gain (setGain s g) = g \<and> status (setGain s g) = init \<and> readCount (setGain s g) = 0
   \<and> (fullTransfers s ws < unat (readsUntilValid s) \<longrightarrow>
        status (polls (setGain s g) ws) \<noteq> valid)
   \<and> (list_all (ready s) ws \<and> length ws = max 1 (unat (readsUntilValid s)) \<longrightarrow>
        status (polls (setGain s g) ws) = valid)"
proof (intro conjI impI)
  let ?s = "setGain s g"
  have p: "pinClk ?s = pinClk s" "pinData ?s = pinData s" by (simp_all add: setGain_def)
  show "?s = s\<lparr>gain := g, status := init, readCount := 0\<rparr>" "gain ?s = g" "status ?s = init"
    "readCount ?s = 0"
    by (simp_all add: setGain_def)
  show "status (polls ?s ws) \<noteq> valid" if "fullTransfers s ws < unat (readsUntilValid s)"
  proof (rule polls_not_valid)
    show "status ?s \<noteq> valid" by (simp add: setGain_def)
    show "unat (readCount ?s) + fullTransfers ?s ws < unat (readsUntilValid ?s)"
      using that by (simp add: fullTransfers_pins [OF p]) (simp add: setGain_def)
  qed
  show "status (polls ?s ws) = valid"
    if a: "list_all (ready s) ws \<and> length ws = max 1 (unat (readsUntilValid s))"
  proof (cases "readsUntilValid s = 0")
    case True
    then have "length ws = 1" using a by simp
    then obtain w where ws: "ws = [w]" by (cases ws) auto
    have r: "ready ?s w" using a ws by (simp add: ready_pins [OF p])
    have "\<not> (if status ?s = timedOut then 0 else readCount ?s) < readsUntilValid ?s"
      using True by (simp add: setGain_def)
    from read_steady(3) [OF r this] show ?thesis by (simp add: ws)
  next
    case False
    then have n: "0 < unat (readsUntilValid s)" by (simp add: unat_gt_0)
    show ?thesis
    proof (rule polls_valid)
      show "status ?s \<noteq> timedOut" by (simp add: setGain_def)
      show "readCount ?s < readsUntilValid ?s"
        using n by (simp add: setGain_def word_less_nat_alt)
      show "list_all (ready ?s) ws" using a by (simp add: ready_pins [OF p])
      show "length ws = unat (readsUntilValid ?s) - unat (readCount ?s)"
        using a n by (simp add: setGain_def max_def)
    qed
  qed
qed

theorem setGain_resettles_witness:
  "status settled = valid
   \<and> gain (setGain settled gain64) = gain64
   \<and> status (setGain settled gain64) = init
   \<and> readCount (setGain settled gain64) = 0
   \<and> fullTransfers settled [quiet 5, busy 6, quiet 7] < unat (readsUntilValid settled)
   \<and> status (polls (setGain settled gain64) [quiet 5, busy 6, quiet 7]) \<noteq> valid
   \<and> list_all (ready settled) [quiet 5, quiet 6, quiet 7]
   \<and> length [quiet 5, quiet 6, quiet 7] = max 1 (unat (readsUntilValid settled))
   \<and> status (polls (setGain settled gain64) [quiet 5, quiet 6, quiet 7]) = valid
   \<and> list_all (ready (fresh 0)) [quiet 5]
   \<and> length [quiet 5] = max 1 (unat (readsUntilValid (fresh 0)))
   \<and> status (polls (setGain (fresh 0) gain64) [quiet 5]) = valid"
proof -
  have l0: "list_all (ready (fresh 0)) [quiet 5]"
    by (simp add: ready_scripted quiet_def)
  have n0: "length [quiet 5] = max 1 (unat (readsUntilValid (fresh 0)))"
    by (simp add: fresh_eq)
  note c1 = setGain_resettles [of "fresh 0" gain64 "[quiet 5]", THEN conjunct2, THEN conjunct2,
      THEN conjunct2, THEN conjunct2, THEN conjunct2, THEN mp, OF conjI, OF l0 n0]
  have v: "status settled = valid" by (simp add: settled_eq)
  have u: "unat (readsUntilValid settled) = 3" by (simp add: settled_eq)
  have f: "fullTransfers settled [quiet 5, busy 6, quiet 7] < unat (readsUntilValid settled)"
    unfolding u by (simp add: fullTransfers_def ready_scripted quiet_def busy_def)
  have l: "list_all (ready settled) [quiet 5, quiet 6, quiet 7]"
    by (simp add: ready_scripted quiet_def)
  have n: "length [quiet 5, quiet 6, quiet 7] = max 1 (unat (readsUntilValid settled))"
    unfolding u by simp
  note a = setGain_resettles [of settled gain64 "[quiet 5, busy 6, quiet 7]"]
  note b = setGain_resettles [of settled gain64 "[quiet 5, quiet 6, quiet 7]"]
  note a1 = a [THEN conjunct2, THEN conjunct2, THEN conjunct2, THEN conjunct2, THEN conjunct1,
      THEN mp, OF f]
  note b1 = b [THEN conjunct2, THEN conjunct2, THEN conjunct2, THEN conjunct2, THEN conjunct2,
      THEN mp, OF conjI, OF l n]
  show ?thesis using v f l n a a1 b1 l0 n0 c1 by blast
qed

end
